theory Spec2Isabelle
  imports Main
begin

section \<open>The oldest-first script: URL check and sort trigger\<close>

text \<open>
  The script \<^verbatim>\<open>protonmail-oldest-first.user.js\<close> watches the URL of the mail
  application and, on an inbox page whose URL does not yet carry the sort marker, writes
  the marker into the URL and clicks the page's sort control. Line numbers in this
  section are those of that script.
\<close>

subsection \<open>Strings and the configuration constants\<close>

text \<open>
  \<^verbatim>\<open>String.prototype.includes\<close>: the second string occurs in the first as a
  contiguous run of characters.
\<close>

fun str_includes :: "string \<Rightarrow> string \<Rightarrow> bool" where
  "str_includes [] t = (t = [])"
| "str_includes (c # cs) t = (take (length t) (c # cs) = t \<or> str_includes cs t)"

definition is_digit :: "char \<Rightarrow> bool" where
  "is_digit c = (c \<in> set ''0123456789'')"

text \<open>
  \<^verbatim>\<open>CONFIG.url.inboxPattern = /^\/u\/\d+\/inbox$/\<close>, as the test that
  \<^verbatim>\<open>pathname.match\<close> is truthy: the whole string is \<^verbatim>\<open>/u/\<close>, one or more
  ASCII digits, \<^verbatim>\<open>/inbox\<close>. The digit run is greedy; since \<^verbatim>\<open>/\<close> is no
  digit, the longest run is the only one that can be followed by \<^verbatim>\<open>/inbox\<close>.
\<close>

definition inboxPattern :: "string \<Rightarrow> bool" where
  "inboxPattern s =
     (take 3 s = ''/u/'' \<and>
      takeWhile is_digit (drop 3 s) \<noteq> [] \<and>
      dropWhile is_digit (drop 3 s) = ''/inbox'')"

definition sortParam :: string where
  "sortParam = ''sort=date''"

subsection \<open>URL objects\<close>

text \<open>
  A URL by its components, as the \<^verbatim>\<open>URL\<close> interface exposes them. The fragment is
  absent (\<open>None\<close>) or a string; \<^verbatim>\<open>search\<close> holds the query with its leading
  question mark. Serialising a URL (\<^verbatim>\<open>toString\<close>, \<^verbatim>\<open>location.href\<close>) and parsing
  the result again gives the same components; that round trip is not modelled, so
  \<^verbatim>\<open>new URL(window.location.href)\<close> is the record of the current location.
\<close>

record url =
  origin :: string
  pathname :: string
  search :: string
  fragment :: "string option"

text \<open>The \<^verbatim>\<open>hash\<close> getter: empty for an absent or empty fragment, else \<^verbatim>\<open>#\<close> and the fragment.\<close>

definition hash :: "url \<Rightarrow> string" where
  "hash u = (case fragment u of None \<Rightarrow> [] | Some f \<Rightarrow> if f = [] then [] else CHR ''#'' # f)"

definition hex_digit :: "nat \<Rightarrow> char" where
  "hex_digit n = ''0123456789ABCDEF'' ! (n mod 16)"

text \<open>
  The fragment percent-encode set of the URL standard: C0 controls, bytes above
  \<^verbatim>\<open>~\<close>, space, double quote, \<^verbatim>\<open><\<close>, \<^verbatim>\<open>>\<close> and the backtick.
\<close>

definition fragment_encode_char :: "char \<Rightarrow> string" where
  "fragment_encode_char c =
     (let n = of_char c :: nat in
      if n \<le> 0x1F \<or> n > 0x7E \<or> n \<in> {0x20, 0x22, 0x3C, 0x3E, 0x60}
      then [CHR ''%'', hex_digit (n div 16), hex_digit n]
      else [c])"

text \<open>Tab, line feed and carriage return, which the URL parser drops from its input.\<close>

definition tab_or_newline :: "char \<Rightarrow> bool" where
  "tab_or_newline c = ((of_char c :: nat) \<in> {0x09, 0x0A, 0x0D})"

text \<open>
  The \<^verbatim>\<open>hash\<close> setter: the empty string removes the fragment; otherwise one leading
  \<^verbatim>\<open>#\<close> is dropped and the rest, without tabs and newlines and percent-encoded,
  becomes the whole fragment. Only the fragment changes.
\<close>

definition set_hash :: "url \<Rightarrow> string \<Rightarrow> url" where
  "set_hash u v =
     (if v = [] then u\<lparr>fragment := None\<rparr>
      else u\<lparr>fragment :=
        Some (concat (map fragment_encode_char
          (filter (\<lambda>c. \<not> tab_or_newline c) (if hd v = CHR ''#'' then tl v else v))))\<rparr>)"

subsection \<open>The browser state seen by the script\<close>

text \<open>
  What the script does to the page, in order: a call of the browser's own
  \<^verbatim>\<open>replaceState\<close> with the URL it is given, a call of \<^verbatim>\<open>triggerSortByDate\<close>, a
  click on the sort dropdown button, the start of the polling timer.
\<close>

datatype event = ReplaceState url | TriggerSortByDate | ClickDropdown | StartInterval

text \<open>
  The state: the current location, whether the page shows the sort dropdown button
  (whether \<^verbatim>\<open>document.querySelector\<close> finds it), and the log of events. The host
  application changes the page and the URL on its own as well; here the state changes
  only by what the script does.
\<close>

record browser =
  location :: url
  dropdownButton :: bool
  events :: "event list"

text \<open>
  \<^verbatim>\<open>originalReplaceState\<close>, the browser's \<^verbatim>\<open>history.replaceState\<close>: the document's
  URL becomes the one given (same origin here, so no SecurityError).
\<close>

definition originalReplaceState :: "browser \<Rightarrow> url \<Rightarrow> browser" where
  "originalReplaceState b u = b\<lparr>location := u, events := events b @ [ReplaceState u]\<rparr>"

text \<open>
  Lines 54-69, \<^verbatim>\<open>triggerSortByDate\<close>, up to its return: the call is logged; when the
  dropdown button is there it is clicked and the timer is started, otherwise nothing is
  done. What the timer does later is \<open>sort_interval\<close> below.
\<close>

definition triggerSortByDate :: "browser \<Rightarrow> browser" where
  "triggerSortByDate b =
     (let b1 = b\<lparr>events := events b @ [TriggerSortByDate]\<rparr>
      in if dropdownButton b1
         then b1\<lparr>events := events b1 @ [ClickDropdown, StartInterval]\<rparr>
         else b1)"

text \<open>The condition of \<^verbatim>\<open>checkURL\<close>'s \<^verbatim>\<open>if\<close>.\<close>

definition needs_sort :: "url \<Rightarrow> bool" where
  "needs_sort u = (inboxPattern (pathname u) \<and> \<not> str_includes (hash u) sortParam)"

text \<open>
  \<^verbatim>\<open>checkURL\<close> and the script's replacement of \<^verbatim>\<open>history.replaceState\<close>, which calls
  the browser's own function and then \<^verbatim>\<open>checkURL\<close>. \<^verbatim>\<open>checkURL\<close> calls
  \<^verbatim>\<open>history.replaceState\<close> after the replacement is installed, so the two are mutually
  recursive.
\<close>

function checkURL :: "browser \<Rightarrow> browser"
  and history_replaceState :: "browser \<Rightarrow> url \<Rightarrow> browser" where
  "checkURL b =
     (let url = location b in
      if needs_sort url
      then triggerSortByDate (history_replaceState b (set_hash url sortParam))
      else b)"
| "history_replaceState b u = checkURL (originalReplaceState b u)"
  by pat_completeness auto
termination
proof (relation "measure (\<lambda>x. case x of
        Inl b \<Rightarrow> if needs_sort (location b) then 2 else 0
      | Inr (b, u) \<Rightarrow> if needs_sort u then 3 else 1)")
  have marked: "\<not> needs_sort (set_hash u sortParam)" for u
    by (simp add: needs_sort_def hash_def set_hash_def sortParam_def fragment_encode_char_def
          tab_or_newline_def)
  fix b :: browser and x :: url
  assume "x = location b" and "needs_sort x"
  then show "(Inr (b, set_hash x sortParam), Inl b) \<in> measure (\<lambda>x. case x of
        Inl b \<Rightarrow> if needs_sort (location b) then 2 else 0
      | Inr (b, u) \<Rightarrow> if needs_sort u then 3 else 1)"
    by (simp add: marked)
qed (auto simp: originalReplaceState_def)

declare checkURL.simps [simp del] history_replaceState.simps [simp del]

subsection \<open>The timer of the sort trigger\<close>

text \<open>
  Lines 58-67: the callback of \<^verbatim>\<open>setInterval\<close> looks for the oldest-first button at
  every tick, and at the first tick that finds it clears the interval, clicks the button
  and schedules the click that closes the dropdown. \<open>present t\<close> tells whether the
  button is in the page at tick \<open>t\<close>. The result is the tick at which the interval is
  cleared; \<open>None\<close> when it never is.
\<close>

partial_function (option) sort_interval :: "(nat \<Rightarrow> bool) \<Rightarrow> nat \<Rightarrow> nat option" where
  "sort_interval present t =
     (if present t then Some t else sort_interval present (Suc t))"

subsection \<open>Example states\<close>

definition example_inbox :: browser where
  "example_inbox =
     \<lparr>location = \<lparr>origin = ''https://mail.proton.me'', pathname = ''/u/0/inbox'',
                  search = ''?x=1'', fragment = Some ''filter=unread''\<rparr>,
      dropdownButton = True,
      events = []\<rparr>"

definition example_sorted :: browser where
  "example_sorted =
     \<lparr>location = \<lparr>origin = ''https://mail.proton.me'', pathname = ''/u/0/inbox'',
                  search = [], fragment = Some ''sort=date''\<rparr>,
      dropdownButton = True,
      events = []\<rparr>"

section \<open>The remove-signature script: the document tree\<close>

text \<open>
  The script \<^verbatim>\<open>protonmail-remove-signature.user.js\<close> watches the page for composer
  frames, waits for the document of each, and removes the signature block the mail
  application puts into it. Line numbers in this section are those of that script.
\<close>

subsection \<open>Exceptions and completions\<close>

text \<open>
  The exceptions the script can meet: a \<^verbatim>\<open>TypeError\<close> (a property read on null, a
  call of something that is no function), the DOM exceptions of \<^verbatim>\<open>insertBefore\<close> and
  of the selector parser, and an \<^verbatim>\<open>Error\<close> made with \<^verbatim>\<open>new Error(message)\<close>. A
  statement that may throw returns a completion \<open>js_error + 'a\<close> (\<open>Inl\<close> the
  exception) next to the state it leaves.
\<close>

datatype js_error = TypeError | HierarchyRequestError | NotFoundError | SyntaxError | Error string

subsection \<open>Nodes and the store\<close>

text \<open>
  Nodes are objects that the script reads and changes in place, so they live in a store:
  a reference is an index into the list of all nodes made so far, and a new node is
  appended. Each node has its kind, what selectors look at (name, class list,
  attributes), and its links to parent, children and owner document. A reference past the
  end of the store stands for a value that is no node.
\<close>

type_synonym ref = nat

datatype node_kind =
  ELEMENT_NODE | TEXT_NODE | COMMENT_NODE | DOCUMENT_NODE | DOCUMENT_TYPE_NODE
  | DOCUMENT_FRAGMENT_NODE

record dom_node =
  nodeType :: node_kind
  localName :: string
  classList :: "string list"
  attributes :: "(string \<times> string) list"
  parentNode :: "ref option"
  childNodes :: "ref list"
  ownerDocument :: "ref option"

type_synonym dom = "dom_node list"

text \<open>
  \<^verbatim>\<open>previousElementSibling\<close>: the nearest element before the node among its parent's
  children. \<^verbatim>\<open>firstElementChild\<close>: the first child that is an element.
\<close>

definition is_element :: "dom \<Rightarrow> ref \<Rightarrow> bool" where
  "is_element h r = (r < length h \<and> nodeType (h ! r) = ELEMENT_NODE)"

definition last_option :: "'a list \<Rightarrow> 'a option" where
  "last_option xs = (if xs = [] then None else Some (last xs))"

definition previousElementSibling :: "dom \<Rightarrow> ref \<Rightarrow> ref option" where
  "previousElementSibling h r =
     (if nodeType (h ! r) \<in> {ELEMENT_NODE, TEXT_NODE, COMMENT_NODE} then
        (case parentNode (h ! r) of
           None \<Rightarrow> None
         | Some p \<Rightarrow>
             last_option (filter (is_element h) (takeWhile (\<lambda>c. c \<noteq> r) (childNodes (h ! p)))))
      else None)"

definition firstElementChild :: "dom \<Rightarrow> ref \<Rightarrow> ref option" where
  "firstElementChild h r = find (is_element h) (childNodes (h ! r))"

text \<open>\<^verbatim>\<open>document.createElement\<close>: a new element without parent, children or classes.\<close>

definition new_element :: "ref \<Rightarrow> string \<Rightarrow> dom_node" where
  "new_element doc name =
     \<lparr>nodeType = ELEMENT_NODE, localName = name, classList = [], attributes = [],
      parentNode = None, childNodes = [], ownerDocument = Some doc\<rparr>"

definition createElement :: "dom \<Rightarrow> ref \<Rightarrow> string \<Rightarrow> ref \<times> dom" where
  "createElement h doc name = (length h, h @ [new_element doc name])"

text \<open>
  \<^verbatim>\<open>ChildNode.remove()\<close>: the node leaves its parent's child list and has no parent
  afterwards; nothing happens to a node without parent.
\<close>

definition remove_node :: "dom \<Rightarrow> ref \<Rightarrow> dom" where
  "remove_node h r =
     (case parentNode (h ! r) of
        None \<Rightarrow> h
      | Some p \<Rightarrow>
          (h[p := (h ! p)\<lparr>childNodes := removeAll r (childNodes (h ! p))\<rparr>])
            [r := (h ! r)\<lparr>parentNode := None\<rparr>])"

text \<open>The node and its ancestors, following at most \<open>k\<close> parent links.\<close>

fun inclusive_ancestors :: "nat \<Rightarrow> dom \<Rightarrow> ref \<Rightarrow> ref list" where
  "inclusive_ancestors 0 h r = [r]"
| "inclusive_ancestors (Suc k) h r =
     r # (case parentNode (h ! r) of None \<Rightarrow> [] | Some p \<Rightarrow> inclusive_ancestors k h p)"

definition insert_before :: "ref \<Rightarrow> ref \<Rightarrow> ref list \<Rightarrow> ref list" where
  "insert_before new child cs =
     takeWhile (\<lambda>c. c \<noteq> child) cs @ new # dropWhile (\<lambda>c. c \<noteq> child) cs"

text \<open>
  \<^verbatim>\<open>parent.insertBefore(new, child)\<close> for a new node that is an element, with the
  checks the DOM standard makes before it inserts: the parent can have children; the new
  node is not the parent or one of its ancestors; the reference child is a child of the
  parent; a document takes no second element, and no element before its doctype. The
  script only ever inserts the element it has just created; for a new node of another
  kind this model answers with the exception.
\<close>

definition insertBefore :: "dom \<Rightarrow> ref \<Rightarrow> ref \<Rightarrow> ref \<Rightarrow> js_error + dom" where
  "insertBefore h parent new child =
     (if nodeType (h ! parent) \<notin> {DOCUMENT_NODE, DOCUMENT_FRAGMENT_NODE, ELEMENT_NODE}
      then Inl HierarchyRequestError
      else if new \<in> set (inclusive_ancestors (length h) h parent)
      then Inl HierarchyRequestError
      else if parentNode (h ! child) \<noteq> Some parent
      then Inl NotFoundError
      else if nodeType (h ! new) \<noteq> ELEMENT_NODE
      then Inl HierarchyRequestError
      else if nodeType (h ! parent) = DOCUMENT_NODE
              \<and> (filter (is_element h) (childNodes (h ! parent)) \<noteq> []
                   \<or> list_ex (\<lambda>c. nodeType (h ! c) = DOCUMENT_TYPE_NODE)
                        (dropWhile (\<lambda>c. c \<noteq> child) (childNodes (h ! parent))))
      then Inl HierarchyRequestError
      else
        (let h1 = remove_node h new
         in Inr ((h1[parent := (h1 ! parent)\<lparr>childNodes :=
                      insert_before new child (childNodes (h1 ! parent))\<rparr>])
                   [new := (h1 ! new)\<lparr>parentNode := Some parent\<rparr>])))"

text \<open>
  The proper descendants of a node in tree order, down to depth \<open>k\<close>. No node of a
  well-formed store lies deeper than the store is long, so the selector functions look
  down to depth \<open>length h\<close>.
\<close>

fun descendants :: "nat \<Rightarrow> dom \<Rightarrow> ref \<Rightarrow> ref list" where
  "descendants 0 h r = []"
| "descendants (Suc k) h r = concat (map (\<lambda>c. c # descendants k h c) (childNodes (h ! r)))"

subsection \<open>Selectors\<close>

text \<open>
  The two shapes of selector the scripts use: a class selector \<^verbatim>\<open>.name\<close> and a type
  selector with one attribute test, \<^verbatim>\<open>tag[attr="value"]\<close>. Any other string counts as
  a syntax error.
\<close>

datatype selector = ClassSelector string | TypeAttrSelector string string string

definition ident_char :: "char \<Rightarrow> bool" where
  "ident_char c =
     (c \<in> set ''abcdefghijklmnopqrstuvwxyzABCDEFGHIJKLMNOPQRSTUVWXYZ0123456789_-'')"

definition dquote :: char where
  "dquote = char_of (0x22 :: nat)"

definition parse_selector :: "string \<Rightarrow> selector option" where
  "parse_selector s =
     (case s of
        [] \<Rightarrow> None
      | c # cs \<Rightarrow>
          if c = CHR ''.'' then
            (if cs \<noteq> [] \<and> list_all ident_char cs
             then Some (ClassSelector cs) else None)
          else
            (let tag = takeWhile ident_char s; r1 = dropWhile ident_char s;
                 attr = takeWhile ident_char (drop 1 r1); r2 = dropWhile ident_char (drop 1 r1);
                 val = takeWhile (\<lambda>x. x \<noteq> dquote) (drop 2 r2);
                 r3 = dropWhile (\<lambda>x. x \<noteq> dquote) (drop 2 r2)
             in if tag \<noteq> [] \<and> take 1 r1 = ''['' \<and> attr \<noteq> [] \<and> take 2 r2 = [CHR ''='', dquote]
                   \<and> r3 = [dquote, CHR '']'']
                then Some (TypeAttrSelector tag attr val) else None))"

fun selector_matches :: "dom \<Rightarrow> ref \<Rightarrow> selector \<Rightarrow> bool" where
  "selector_matches h r (ClassSelector c) = (is_element h r \<and> c \<in> set (classList (h ! r)))"
| "selector_matches h r (TypeAttrSelector t a v) =
     (is_element h r \<and> localName (h ! r) = t \<and> map_of (attributes (h ! r)) a = Some v)"

definition querySelectorAll :: "dom \<Rightarrow> ref \<Rightarrow> string \<Rightarrow> js_error + ref list" where
  "querySelectorAll h r s =
     (case parse_selector s of
        None \<Rightarrow> Inl SyntaxError
      | Some sel \<Rightarrow> Inr (filter (\<lambda>d. selector_matches h d sel) (descendants (length h) h r)))"

definition querySelector :: "dom \<Rightarrow> ref \<Rightarrow> string \<Rightarrow> js_error + ref option" where
  "querySelector h r s =
     (case querySelectorAll h r s of
        Inl e \<Rightarrow> Inl e
      | Inr [] \<Rightarrow> Inr None
      | Inr (d # ds) \<Rightarrow> Inr (Some d))"

definition matches :: "dom \<Rightarrow> ref \<Rightarrow> string \<Rightarrow> js_error + bool" where
  "matches h r s =
     (case parse_selector s of
        None \<Rightarrow> Inl SyntaxError
      | Some sel \<Rightarrow> Inr (selector_matches h r sel))"

text \<open>
  Which kinds of node have the methods: \<^verbatim>\<open>querySelector\<close> and
  \<^verbatim>\<open>querySelectorAll\<close> belong to elements, documents and fragments, \<^verbatim>\<open>matches\<close> to
  elements only.
\<close>

definition has_querySelector :: "node_kind \<Rightarrow> bool" where
  "has_querySelector k = (k \<in> {ELEMENT_NODE, DOCUMENT_NODE, DOCUMENT_FRAGMENT_NODE})"

definition has_matches :: "node_kind \<Rightarrow> bool" where
  "has_matches k = (k = ELEMENT_NODE)"

subsection \<open>The configuration constants\<close>

definition signatureBlock :: string where
  "signatureBlock = ''.protonmail_signature_block''"

definition protonSignature :: string where
  "protonSignature = ''.protonmail_signature_block-proton''"

definition emptySignature :: string where
  "emptySignature = ''.protonmail_signature_block-empty''"

definition composer :: string where
  "composer = ''iframe[title='' @ [dquote] @ ''Email composer'' @ [dquote] @ '']''"

definition maxInitAttempts :: nat where
  "maxInitAttempts = 50"

definition initRetryDelay :: nat where
  "initRetryDelay = 50"

subsection \<open>Removing a signature\<close>

text \<open>\<^verbatim>\<open>x?.remove()\<close>: nothing happens when \<open>x\<close> is null.\<close>

fun opt_remove :: "dom \<Rightarrow> ref option \<Rightarrow> dom" where
  "opt_remove h None = h"
| "opt_remove h (Some r) = remove_node h r"

text \<open>Lines 76-78: does the first element child carry the empty-signature class?\<close>

definition isEmptySignature :: "dom \<Rightarrow> ref \<Rightarrow> bool" where
  "isEmptySignature h node =
     (case firstElementChild h node of
        None \<Rightarrow> False
      | Some c \<Rightarrow> drop 1 emptySignature \<in> set (classList (h ! c)))"

text \<open>Lines 81-82: create the line break and insert it before the node.\<close>

definition insert_line_break :: "dom \<Rightarrow> ref \<Rightarrow> (js_error + unit) \<times> dom" where
  "insert_line_break h node =
     (case ownerDocument (h ! node) of
        None \<Rightarrow> (Inl TypeError, h)
      | Some doc \<Rightarrow>
          (let (br, h1) = createElement h doc ''br''
           in (case parentNode (h1 ! node) of
                 None \<Rightarrow> (Inl TypeError, h1)
               | Some parent \<Rightarrow>
                   (case insertBefore h1 parent br node of
                      Inl e \<Rightarrow> (Inl e, h1)
                    | Inr h2 \<Rightarrow> (Inr (), h2)))))"

text \<open>Lines 84-90: remove the previous element sibling, or the previous two.\<close>

definition remove_previous :: "dom \<Rightarrow> bool \<Rightarrow> ref option \<Rightarrow> dom" where
  "remove_previous h isEmpty prev =
     (if \<not> isEmpty then opt_remove h prev
      else
        (let prevPrev = (case prev of None \<Rightarrow> None | Some p \<Rightarrow> previousElementSibling h p)
         in opt_remove (opt_remove h prevPrev) prev))"

text \<open>Lines 92-98: look the vendor signature up under the node and remove it.\<close>

definition remove_proton_signature :: "dom \<Rightarrow> ref \<Rightarrow> (js_error + bool) \<times> dom" where
  "remove_proton_signature h node =
     (if \<not> has_querySelector (nodeType (h ! node)) then (Inl TypeError, h)
      else
        (case querySelector h node protonSignature of
           Inl e \<Rightarrow> (Inl e, h)
         | Inr None \<Rightarrow> (Inr False, h)
         | Inr (Some signature) \<Rightarrow> (Inr True, remove_node h signature)))"

text \<open>
  Lines 75-98, the body of the \<^verbatim>\<open>try\<close> block. An exception ends it at once, in the
  store as it is at that moment.
\<close>

definition removeSignature_try :: "dom \<Rightarrow> ref \<Rightarrow> (js_error + bool) \<times> dom" where
  "removeSignature_try h node =
     (if \<not> node < length h then (Inl TypeError, h)
      else
        (let prev = previousElementSibling h node;
             isEmpty = isEmptySignature h node
         in (case insert_line_break h node of
               (Inl e, h1) \<Rightarrow> (Inl e, h1)
             | (Inr u, h2) \<Rightarrow>
                 remove_proton_signature (remove_previous h2 isEmpty prev) node)))"

text \<open>Lines 73-102: the \<^verbatim>\<open>catch\<close> turns every exception of the body into false.\<close>

definition removeSignature :: "dom \<Rightarrow> ref \<Rightarrow> (js_error + bool) \<times> dom" where
  "removeSignature h node =
     (case removeSignature_try h node of
        (Inl e, h') \<Rightarrow> (Inr False, h')
      | (Inr b, h') \<Rightarrow> (Inr b, h'))"

subsection \<open>Well-formed stores\<close>

text \<open>
  A store is a forest of trees when the links agree (the children of a node have it as
  their parent, and a node with a parent is among that parent's children), no node is
  listed twice among the children, only elements, documents and fragments have children,
  a document has at most one element child, every node but a document has an owner
  document, and the links run into the store. That no node is its own descendant is
  stated with a rank that drops from parent to child; the height of a node in its tree is
  such a rank, and it is below the number of nodes.
\<close>

definition wf_node :: "(ref \<Rightarrow> nat) \<Rightarrow> dom \<Rightarrow> ref \<Rightarrow> bool" where
  "wf_node rk h r =
     (let n = h ! r in
      rk r < length h \<and>
      distinct (childNodes n) \<and>
      (\<forall>c \<in> set (childNodes n). c < length h \<and> rk c < rk r \<and> parentNode (h ! c) = Some r) \<and>
      (case parentNode n of
         None \<Rightarrow> True
       | Some p \<Rightarrow> p < length h \<and> r \<in> set (childNodes (h ! p))) \<and>
      (childNodes n \<noteq> [] \<longrightarrow>
         nodeType n \<in> {ELEMENT_NODE, DOCUMENT_NODE, DOCUMENT_FRAGMENT_NODE}) \<and>
      (nodeType n = DOCUMENT_NODE \<longrightarrow> length (filter (is_element h) (childNodes n)) \<le> 1) \<and>
      (nodeType n \<noteq> DOCUMENT_NODE \<longrightarrow> ownerDocument n \<noteq> None))"

definition wf_dom :: "(ref \<Rightarrow> nat) \<Rightarrow> dom \<Rightarrow> bool" where
  "wf_dom rk h = (\<forall>r < length h. wf_node rk h r)"

subsection \<open>The signature observer\<close>

text \<open>
  \<^verbatim>\<open>forEach\<close> with a callback that may throw: the first exception ends the loop and
  is the loop's outcome.
\<close>

fun for_each :: "('s \<Rightarrow> 'a \<Rightarrow> (js_error + unit) \<times> 's) \<Rightarrow> 'a list \<Rightarrow> 's \<Rightarrow> (js_error + unit) \<times> 's" where
  "for_each f [] s = (Inr (), s)"
| "for_each f (x # xs) s =
     (case f s x of
        (Inl e, s') \<Rightarrow> (Inl e, s')
      | (Inr u, s') \<Rightarrow> for_each f xs s')"

text \<open>
  Lines 119-126 and 142-145: a signature block that holds a vendor signature is handed to
  \<^verbatim>\<open>removeSignature\<close>, whose result is dropped. The state carries, next to the
  store, the list of nodes \<^verbatim>\<open>removeSignature\<close> was called on, in call order.
\<close>

definition remove_if_signed :: "dom \<times> ref list \<Rightarrow> ref \<Rightarrow> (js_error + unit) \<times> dom \<times> ref list" where
  "remove_if_signed s node =
     (case s of (h, calls) \<Rightarrow>
        (case querySelector h node protonSignature of
           Inl e \<Rightarrow> (Inl e, (h, calls))
         | Inr None \<Rightarrow> (Inr (), (h, calls))
         | Inr (Some sig) \<Rightarrow>
             (case removeSignature h node of
                (Inl e, h') \<Rightarrow> (Inl e, (h', calls @ [node]))
              | (Inr b, h') \<Rightarrow> (Inr (), (h', calls @ [node])))))"

text \<open>
  Lines 115-127, the observer's callback for one added node. Only elements have a
  \<^verbatim>\<open>classList\<close>; every other node is skipped.
\<close>

definition signature_added_node :: "dom \<times> ref list \<Rightarrow> ref \<Rightarrow> (js_error + unit) \<times> dom \<times> ref list" where
  "signature_added_node s node =
     (if \<not> is_element (fst s) node then (Inr (), s)
      else if drop 1 signatureBlock \<in> set (classList (fst s ! node))
      then remove_if_signed s node
      else (Inr (), s))"

text \<open>
  Lines 113-129: the callback receives a batch of mutation records, here each by its
  list of added nodes, and visits every added node of every record once.
\<close>

definition signature_observer_callback :: "dom \<Rightarrow> ref list list \<Rightarrow> (js_error + unit) \<times> dom \<times> ref list" where
  "signature_observer_callback h mutations =
     for_each (\<lambda>s addedNodes. for_each signature_added_node addedNodes s) mutations (h, [])"

subsection \<open>Vocabulary for the statements and their proofs\<close>

text \<open>
  The siblings that lines 84-90 remove, read off the store before the call: the previous
  element sibling and, for the empty variant, the element sibling before that one.
\<close>

definition removed_siblings :: "dom \<Rightarrow> ref \<Rightarrow> ref list" where
  "removed_siblings h node =
     (case previousElementSibling h node of
        None \<Rightarrow> []
      | Some prev \<Rightarrow>
          if isEmptySignature h node
          then (case previousElementSibling h prev of
                  None \<Rightarrow> [prev]
                | Some prevPrev \<Rightarrow> [prevPrev, prev])
          else [prev])"

text \<open>The nested vendor signature the node holds before the call, if any.\<close>

definition nested_signature :: "dom \<Rightarrow> ref \<Rightarrow> ref list" where
  "nested_signature h node =
     (case querySelector h node protonSignature of Inr (Some s) \<Rightarrow> [s] | _ \<Rightarrow> [])"

text \<open>
  The store \<open>g\<close> is \<open>h\<close> with one more node \<open>brn\<close> at the end, the child list of
  \<open>p\<close> replaced by \<open>cs\<close>, and the nodes of \<open>rem\<close> detached from their parent.
\<close>

definition cleaned :: "dom \<Rightarrow> ref \<Rightarrow> ref list \<Rightarrow> ref set \<Rightarrow> dom_node \<Rightarrow> dom \<Rightarrow> bool" where
  "cleaned h p cs rem brn g \<longleftrightarrow>
     length g = Suc (length h) \<and> g ! length h = brn \<and>
     (\<forall>r < length h. g ! r =
        (h ! r)\<lparr>parentNode := (if r \<in> rem then None else parentNode (h ! r)),
                childNodes := (if r = p then cs else childNodes (h ! r))\<rparr>)"

text \<open>
  Every node of \<open>h\<close> is a node of \<open>h'\<close> with the same kind, name, classes and
  attributes: what removing and inserting nodes leaves alone.
\<close>

definition keeps_nodes :: "dom \<Rightarrow> dom \<Rightarrow> bool" where
  "keeps_nodes h h' \<longleftrightarrow>
     length h \<le> length h' \<and>
     (\<forall>r < length h.
        nodeType (h' ! r) = nodeType (h ! r) \<and> localName (h' ! r) = localName (h ! r)
        \<and> classList (h' ! r) = classList (h ! r) \<and> attributes (h' ! r) = attributes (h ! r))"

subsection \<open>Example stores\<close>

text \<open>
  A composer document: in the body two empty lines, a text node, the signature block
  with the user's part (\<open>user_classes\<close>) and the vendor signature, and the quoted
  message. Then a block without vendor signature, and two blocks that are in no tree.
\<close>

definition elem :: "string \<Rightarrow> string list \<Rightarrow> ref option \<Rightarrow> ref list \<Rightarrow> dom_node" where
  "elem name cls par kids =
     \<lparr>nodeType = ELEMENT_NODE, localName = name, classList = cls, attributes = [],
      parentNode = par, childNodes = kids, ownerDocument = Some 0\<rparr>"

definition document_node :: "ref list \<Rightarrow> dom_node" where
  "document_node kids =
     \<lparr>nodeType = DOCUMENT_NODE, localName = [], classList = [], attributes = [],
      parentNode = None, childNodes = kids, ownerDocument = None\<rparr>"

definition detached_block :: dom where
  "detached_block =
     [document_node [],
      elem ''div'' [''protonmail_signature_block''] None []]"

definition detached_signed_block :: dom where
  "detached_signed_block =
     [document_node [],
      elem ''div'' [''protonmail_signature_block''] None [2],
      elem ''div'' [''protonmail_signature_block-proton''] (Some 1) []]"

definition example_editor :: "string list \<Rightarrow> dom" where
  "example_editor user_classes =
     [document_node [1],
      elem ''body'' [] (Some 0) [2, 3, 4, 5, 8],
      elem ''div'' [] (Some 1) [],
      elem ''div'' [] (Some 1) [],
      \<lparr>nodeType = TEXT_NODE, localName = [], classList = [], attributes = [],
       parentNode = Some 1, childNodes = [], ownerDocument = Some 0\<rparr>,
      elem ''div'' [''protonmail_signature_block''] (Some 1) [6, 7],
      elem ''div'' user_classes (Some 5) [],
      elem ''div'' [''protonmail_signature_block-proton''] (Some 5) [],
      elem ''blockquote'' [''protonmail_quote''] (Some 1) []]"

definition regular_editor :: dom where
  "regular_editor = example_editor [''protonmail_signature_block-user'']"

definition empty_editor :: dom where
  "empty_editor =
     example_editor [''protonmail_signature_block-user'', ''protonmail_signature_block-empty'']"

definition example_rank :: "ref \<Rightarrow> nat" where
  "example_rank r = (if r = 0 then 3 else if r = 1 then 2 else if r = 5 then 1 else 0)"

definition unsigned_editor :: dom where
  "unsigned_editor =
     [document_node [1],
      elem ''body'' [] (Some 0) [2, 3],
      elem ''div'' [] (Some 1) [],
      elem ''div'' [''protonmail_signature_block''] (Some 1) [4],
      elem ''div'' [''protonmail_signature_block-user''] (Some 3) []]"

definition unsigned_rank :: "ref \<Rightarrow> nat" where
  "unsigned_rank r = (if r = 0 then 3 else if r = 1 then 2 else if r = 3 then 1 else 0)"

subsection \<open>JavaScript values, for the node-type guard\<close>

datatype js_value =
  JUndefined | JNull | JBoolean bool | JNumber int | JString string | JObject ref

definition to_boolean :: "js_value \<Rightarrow> bool" where
  "to_boolean v =
     (case v of
        JUndefined \<Rightarrow> False
      | JNull \<Rightarrow> False
      | JBoolean b \<Rightarrow> b
      | JNumber n \<Rightarrow> n \<noteq> 0
      | JString s \<Rightarrow> s \<noteq> []
      | JObject r \<Rightarrow> True)"

text \<open>The logical not operator: always a boolean.\<close>

definition js_not :: "js_value \<Rightarrow> js_value" where
  "js_not v = JBoolean (\<not> to_boolean v)"

text \<open>
  Strict equality: values of different types are never equal. Numbers are integers here,
  so the one number that differs from itself does not occur.
\<close>

definition strict_equals :: "js_value \<Rightarrow> js_value \<Rightarrow> bool" where
  "strict_equals a b = (a = b)"

text \<open>The numeric constants of the \<^verbatim>\<open>nodeType\<close> property.\<close>

definition nodeType_code :: "node_kind \<Rightarrow> int" where
  "nodeType_code k =
     (case k of
        ELEMENT_NODE \<Rightarrow> 1
      | TEXT_NODE \<Rightarrow> 3
      | COMMENT_NODE \<Rightarrow> 8
      | DOCUMENT_NODE \<Rightarrow> 9
      | DOCUMENT_TYPE_NODE \<Rightarrow> 10
      | DOCUMENT_FRAGMENT_NODE \<Rightarrow> 11)"

text \<open>
  Line 193, \<^verbatim>\<open>!node.nodeType === Node.ELEMENT_NODE\<close>: the negation binds tighter than
  the comparison, so a boolean is compared with the number 1.
\<close>

definition node_type_guard :: "dom \<Rightarrow> ref \<Rightarrow> bool" where
  "node_type_guard h node =
     strict_equals (js_not (JNumber (nodeType_code (nodeType (h ! node)))))
       (JNumber (nodeType_code ELEMENT_NODE))"

subsection \<open>Waiting for the composer's document\<close>

text \<open>
  What one look at \<^verbatim>\<open>iframe.contentDocument\<close> gives: an exception, no document, or a
  document with its \<^verbatim>\<open>readyState\<close>. The frame is loaded by the host page, so the
  answers come from outside: \<open>probe i\<close> is what the \<open>i\<close>-th look finds.
\<close>

record doc_view =
  doc_ref :: ref
  readyState :: string

type_synonym probe = "nat \<Rightarrow> js_error + doc_view option"

text \<open>Lines 163-171: the \<^verbatim>\<open>try\<close> block; an exception counts as not ready.\<close>

definition usable_doc :: "js_error + doc_view option \<Rightarrow> ref option" where
  "usable_doc r =
     (case r of
        Inl e \<Rightarrow> None
      | Inr None \<Rightarrow> None
      | Inr (Some d) \<Rightarrow> if readyState d \<noteq> ''uninitialized'' then Some (doc_ref d) else None)"

datatype 'a settled = Fulfilled 'a | Rejected js_error

text \<open>
  Lines 160-179, \<^verbatim>\<open>checkDoc\<close>: the outcome, the number of attempts made and the sum of
  the delays waited. Each retry is scheduled \<^verbatim>\<open>initRetryDelay\<close> milliseconds later.
\<close>

function checkDoc :: "probe \<Rightarrow> nat \<Rightarrow> nat \<Rightarrow> ref settled \<times> nat \<times> nat" where
  "checkDoc probe attempts waited =
     (case usable_doc (probe (attempts + 1)) of
        Some doc \<Rightarrow> (Fulfilled doc, attempts + 1, waited)
      | None \<Rightarrow>
          if attempts + 1 \<ge> maxInitAttempts
          then (Rejected (Error ''Failed to initialize editor after max attempts''),
                attempts + 1, waited)
          else checkDoc probe (attempts + 1) (waited + initRetryDelay))"
  by pat_completeness auto
termination
  by (relation "measure (\<lambda>(probe, attempts, waited). maxInitAttempts - attempts)") auto

declare checkDoc.simps [simp del]

definition waitForIframeDoc :: "probe \<Rightarrow> ref settled \<times> nat \<times> nat" where
  "waitForIframeDoc probe = checkDoc probe 0 0"

subsection \<open>Promise chains\<close>

text \<open>
  A promise is modelled by its outcome together with the state at the time it settles.
  \<^verbatim>\<open>then\<close> runs its callback on a fulfilled promise; an exception of the callback
  rejects the result. \<^verbatim>\<open>catch\<close> runs its handler on a rejected promise and fulfils
  the result with what the handler returns. Callbacks run at the place of the call: the
  order in which the event loop would run them between other events is not modelled.
\<close>

definition then_do ::
  "'a settled \<times> 's \<Rightarrow> ('s \<Rightarrow> 'a \<Rightarrow> (js_error + 'b) \<times> 's) \<Rightarrow> 'b settled \<times> 's" where
  "then_do p f =
     (case p of
        (Fulfilled v, s) \<Rightarrow>
          (case f s v of
             (Inl e, s') \<Rightarrow> (Rejected e, s')
           | (Inr r, s') \<Rightarrow> (Fulfilled r, s'))
      | (Rejected e, s) \<Rightarrow> (Rejected e, s))"

definition catch_do ::
  "'a settled \<times> 's \<Rightarrow> ('s \<Rightarrow> js_error \<Rightarrow> (js_error + 'a) \<times> 's) \<Rightarrow> 'a settled \<times> 's" where
  "catch_do p f =
     (case p of
        (Fulfilled v, s) \<Rightarrow> (Fulfilled v, s)
      | (Rejected e, s) \<Rightarrow>
          (case f s e of
             (Inl e', s') \<Rightarrow> (Rejected e', s')
           | (Inr r, s') \<Rightarrow> (Fulfilled r, s')))"

subsection \<open>The composer observer\<close>

text \<open>
  The page as the remove-signature script sees it: the store of nodes (the page's
  document and the composers' documents), the documents a signature observer is attached
  to, and the node the composer observer is attached to, if it is attached. The script
  disconnects no observer.
\<close>

record page =
  store :: dom
  observed_docs :: "ref list"
  observed_body :: "ref option"


text \<open>
  Lines 111-147, \<^verbatim>\<open>setupObserver\<close>: attach the signature observer to the composer's
  document, then remove the signatures that are already there.
\<close>

definition setupObserver :: "page \<Rightarrow> ref \<Rightarrow> (js_error + unit) \<times> page" where
  "setupObserver pg iframeDoc =
     (if \<not> iframeDoc < length (store pg) then (Inl TypeError, pg)
      else
        (let pg1 = pg\<lparr>observed_docs := observed_docs pg @ [iframeDoc]\<rparr>
         in (case querySelectorAll (store pg1) iframeDoc signatureBlock of
               Inl e \<Rightarrow> (Inl e, pg1)
             | Inr existingSignatures \<Rightarrow>
                 (case for_each remove_if_signed existingSignatures (store pg1, []) of
                    (r, (h', calls)) \<Rightarrow> (r, pg1\<lparr>store := h'\<rparr>)))))"

text \<open>
  The chain \<^verbatim>\<open>waitForIframeDoc(iframe).then(setupObserver).catch(() => {})\<close> of
  lines 197, 206 and 224. \<open>env iframe\<close> is what the looks at the frame's document find.
\<close>

definition init_composer :: "(ref \<Rightarrow> probe) \<Rightarrow> page \<Rightarrow> ref \<Rightarrow> unit settled \<times> page" where
  "init_composer env pg iframe =
     catch_do (then_do (fst (waitForIframeDoc (env iframe)), pg) setupObserver)
       (\<lambda>s e. (Inr (), s))"

text \<open>
  A method that a node may lack, called through \<^verbatim>\<open>?.\<close>: without the method the
  result is undefined (\<open>None\<close>) and nothing is called.
\<close>

definition optional_call :: "('a \<Rightarrow> js_error + 'b) option \<Rightarrow> 'a \<Rightarrow> js_error + 'b option" where
  "optional_call m x =
     (case m of
        None \<Rightarrow> Inr None
      | Some f \<Rightarrow> (case f x of Inl e \<Rightarrow> Inl e | Inr y \<Rightarrow> Inr (Some y)))"

definition matches_method :: "dom \<Rightarrow> ref \<Rightarrow> (string \<Rightarrow> js_error + bool) option" where
  "matches_method h node =
     (if node < length h \<and> has_matches (nodeType (h ! node)) then Some (matches h node) else None)"

definition querySelectorAll_method :: "dom \<Rightarrow> ref \<Rightarrow> (string \<Rightarrow> js_error + ref list) option" where
  "querySelectorAll_method h node =
     (if node < length h \<and> has_querySelector (nodeType (h ! node))
      then Some (querySelectorAll h node) else None)"

text \<open>Lines 191-211: the composer observer's callback for one added node.\<close>

definition composer_added_node :: "(ref \<Rightarrow> probe) \<Rightarrow> page \<Rightarrow> ref \<Rightarrow> (js_error + unit) \<times> page" where
  "composer_added_node env pg node =
     (if node_type_guard (store pg) node then (Inr (), pg)
      else
        (case optional_call (matches_method (store pg) node) composer of
           Inl e \<Rightarrow> (Inl e, pg)
         | Inr m \<Rightarrow>
             (let pg1 = (if m = Some True then snd (init_composer env pg node) else pg)
              in (case optional_call (querySelectorAll_method (store pg1) node) composer of
                    Inl e \<Rightarrow> (Inl e, pg1)
                  | Inr None \<Rightarrow> (Inr (), pg1)
                  | Inr (Some composerIframes) \<Rightarrow>
                      for_each (\<lambda>s iframe. (Inr (), snd (init_composer env s iframe)))
                        composerIframes pg1))))"




text \<open>
  Vocabulary for the statements: the page \<open>pg'\<close> has every node of \<open>pg\<close>, every
  signature observer of \<open>pg\<close>, and the composer observer where \<open>pg\<close> has it.
\<close>

definition page_grows :: "page \<Rightarrow> page \<Rightarrow> bool" where
  "page_grows pg pg' \<longleftrightarrow>
     keeps_nodes (store pg) (store pg')
     \<and> set (observed_docs pg) \<subseteq> set (observed_docs pg')
     \<and> observed_body pg' = observed_body pg"

subsection \<open>Example frames and pages\<close>

definition ready_at_third :: probe where
  "ready_at_third i =
     (if i < 3 then Inr None
      else Inr (Some \<lparr>doc_ref = 4, readyState = ''complete''\<rparr>))"

definition never_ready :: probe where
  "never_ready i =
     (if even i then Inl TypeError
      else Inr (Some \<lparr>doc_ref = 4, readyState = ''uninitialized''\<rparr>))"

definition iframe_elem :: "ref option \<Rightarrow> dom_node" where
  "iframe_elem par =
     \<lparr>nodeType = ELEMENT_NODE, localName = ''iframe'', classList = [],
      attributes = [(''title'', ''Email composer'')],
      parentNode = par, childNodes = [], ownerDocument = Some 0\<rparr>"

definition text_node :: "ref option \<Rightarrow> dom_node" where
  "text_node par =
     \<lparr>nodeType = TEXT_NODE, localName = [], classList = [], attributes = [],
      parentNode = par, childNodes = [], ownerDocument = Some 0\<rparr>"

text \<open>
  A page whose body holds two composer frames, a text node and a \<^verbatim>\<open>div\<close> around a
  third composer frame, with the composer observer attached to the body; the documents
  of the frames are nodes 4 and 9. Then the same page before the observer is attached,
  and a document whose root element is no \<^verbatim>\<open>html\<close> element, so that it has no
  body.
\<close>

definition example_page :: page where
  "example_page =
     \<lparr>store =
        [document_node [6],
         elem ''body'' [] (Some 6) [2, 3, 5, 7],
         iframe_elem (Some 1),
         iframe_elem (Some 1),
         document_node [],
         text_node (Some 1),
         elem ''html'' [] (Some 0) [1],
         elem ''div'' [] (Some 1) [8],
         iframe_elem (Some 7),
         document_node []],
      observed_docs = [],
      observed_body = Some 1\<rparr>"



definition ready_at_first :: probe where
  "ready_at_first i = Inr (Some \<lparr>doc_ref = 9, readyState = ''loading''\<rparr>)"

definition example_env :: "ref \<Rightarrow> probe" where
  "example_env iframe =
     (if iframe = 3 then ready_at_third else if iframe = 8 then ready_at_first else never_ready)"

section \<open>Properties of the oldest-first script\<close>

lemma hash_set_hash_sortParam: "hash (set_hash u sortParam) = ''#sort=date''"
  by (simp add: hash_def set_hash_def sortParam_def fragment_encode_char_def
        tab_or_newline_def)

lemma includes_hash_set_hash: "str_includes (hash (set_hash u sortParam)) sortParam"
  by (simp add: hash_set_hash_sortParam) (simp add: sortParam_def)

lemma not_needs_sort_set_hash: "\<not> needs_sort (set_hash u sortParam)"
  by (simp add: needs_sort_def includes_hash_set_hash)

text \<open>
  The substring test is what its name says: \<open>t\<close> is included in \<open>s\<close> exactly when
  \<open>s\<close> is some prefix, then \<open>t\<close>, then some suffix.
\<close>

theorem str_includes_iff: "str_includes s t \<longleftrightarrow> (\<exists>p q. s = p @ t @ q)"
proof (induction s)
  case Nil
  then show ?case by auto
next
  case (Cons c cs)
  have here: "take (length t) (c # cs) = t \<longleftrightarrow> (\<exists>q. c # cs = t @ q)"
  proof
    assume "take (length t) (c # cs) = t"
    then have "c # cs = t @ drop (length t) (c # cs)"
      by (metis append_take_drop_id)
    then show "\<exists>q. c # cs = t @ q" ..
  next
    assume "\<exists>q. c # cs = t @ q"
    then show "take (length t) (c # cs) = t" by auto
  qed
  show ?case
  proof
    assume "str_includes (c # cs) t"
    then consider "take (length t) (c # cs) = t" | "str_includes cs t" by auto
    then show "\<exists>p q. c # cs = p @ t @ q"
    proof cases
      case 1
      with here obtain q where "c # cs = [] @ t @ q" by auto
      then show ?thesis by blast
    next
      case 2
      with Cons.IH obtain p q where "cs = p @ t @ q" by blast
      then have "c # cs = (c # p) @ t @ q" by simp
      then show ?thesis by blast
    qed
  next
    assume "\<exists>p q. c # cs = p @ t @ q"
    then obtain p q where pq: "c # cs = p @ t @ q" by blast
    show "str_includes (c # cs) t"
    proof (cases p)
      case Nil
      with pq have "\<exists>q. c # cs = t @ q" by auto
      with here have "take (length t) (c # cs) = t" by simp
      then show ?thesis by simp
    next
      case (Cons a p')
      with pq have "cs = p' @ t @ q" by simp
      with Cons.IH show ?thesis by auto
    qed
  qed
qed

theorem str_includes_iff_witness: "str_includes ''#filter=unread&sort=date'' sortParam"
proof -
  have "''#filter=unread&sort=date'' = ''#filter=unread&'' @ sortParam @ []"
    by (simp add: sortParam_def)
  then show ?thesis
    using str_includes_iff [of "''#filter=unread&sort=date''" sortParam] by blast
qed

text \<open>
  The inbox pattern accepts exactly the paths \<^verbatim>\<open>/u/\<close>, a non-empty run of digits,
  \<^verbatim>\<open>/inbox\<close>.
\<close>

theorem inboxPattern_iff:
  "inboxPattern s \<longleftrightarrow>
     (\<exists>ds. ds \<noteq> [] \<and> (\<forall>c \<in> set ds. is_digit c) \<and> s = ''/u/'' @ ds @ ''/inbox'')"
proof
  assume a: "inboxPattern s"
  let ?ds = "takeWhile is_digit (drop 3 s)"
  have "s = take 3 s @ ?ds @ dropWhile is_digit (drop 3 s)" by simp
  with a have "s = ''/u/'' @ ?ds @ ''/inbox''" by (simp add: inboxPattern_def)
  moreover have "\<forall>c \<in> set ?ds. is_digit c" by (auto dest: set_takeWhileD)
  moreover have "?ds \<noteq> []" using a by (simp add: inboxPattern_def)
  ultimately show "\<exists>ds. ds \<noteq> [] \<and> (\<forall>c \<in> set ds. is_digit c) \<and> s = ''/u/'' @ ds @ ''/inbox''"
    by blast
next
  assume "\<exists>ds. ds \<noteq> [] \<and> (\<forall>c \<in> set ds. is_digit c) \<and> s = ''/u/'' @ ds @ ''/inbox''"
  then obtain ds where ne: "ds \<noteq> []" and dg: "\<forall>c \<in> set ds. is_digit c"
    and s: "s = ''/u/'' @ ds @ ''/inbox''" by blast
  have nd: "\<not> is_digit CHR ''/''" by (simp add: is_digit_def)
  have "takeWhile is_digit (ds @ ''/inbox'') = ds"
    using dg nd by (simp add: takeWhile_append2)
  moreover have "dropWhile is_digit (ds @ ''/inbox'') = ''/inbox''"
    using dg nd by simp
  ultimately show "inboxPattern s"
    using ne by (simp add: inboxPattern_def s)
qed

theorem inboxPattern_iff_witness: "inboxPattern ''/u/12/inbox'' \<and> \<not> inboxPattern ''/u/12/inbox/''"
proof -
  have "''12'' \<noteq> [] \<and> (\<forall>c \<in> set ''12''. is_digit c) \<and> ''/u/12/inbox'' = ''/u/'' @ ''12'' @ ''/inbox''"
    by (simp add: is_digit_def)
  then have 1: "inboxPattern ''/u/12/inbox''"
    using inboxPattern_iff [of "''/u/12/inbox''"] by blast
  have 2: "\<not> inboxPattern ''/u/12/inbox/''"
    by (simp add: inboxPattern_def is_digit_def)
  from 1 2 show ?thesis by blast
qed

text \<open>The marker carries no \<^verbatim>\<open>#\<close>, so it is in the hash exactly when it is in the fragment.\<close>

lemma str_includes_hash_iff:
  "str_includes (hash u) sortParam \<longleftrightarrow> (\<exists>f. fragment u = Some f \<and> str_includes f sortParam)"
proof (cases "fragment u")
  case None
  then show ?thesis by (simp add: hash_def sortParam_def)
next
  case (Some f)
  show ?thesis
  proof (cases "f = []")
    case True
    with Some show ?thesis by (simp add: hash_def sortParam_def)
  next
    case False
    have "take (length sortParam) (CHR ''#'' # f) \<noteq> sortParam"
      by (simp add: sortParam_def)
    with Some False show ?thesis by (simp add: hash_def)
  qed
qed

lemma checkURL_noop: "\<not> needs_sort (location b) \<Longrightarrow> checkURL b = b"
  by (simp add: checkURL.simps)

text \<open>The call that \<^verbatim>\<open>checkURL\<close> receives from its own \<^verbatim>\<open>replaceState\<close> does nothing.\<close>

lemma nested_checkURL_noop:
  "history_replaceState b (set_hash u sortParam) = originalReplaceState b (set_hash u sortParam)"
proof -
  have "\<not> needs_sort (location (originalReplaceState b (set_hash u sortParam)))"
    by (simp add: originalReplaceState_def not_needs_sort_set_hash)
  then show ?thesis
    by (simp add: history_replaceState.simps checkURL_noop)
qed

lemma checkURL_fires:
  assumes "needs_sort (location b)"
  shows "checkURL b = b\<lparr>location := set_hash (location b) sortParam,
           events := events b @
             [ReplaceState (set_hash (location b) sortParam), TriggerSortByDate] @
             (if dropdownButton b then [ClickDropdown, StartInterval] else [])\<rparr>"
  using assms
  by (simp add: checkURL.simps [of b] Let_def nested_checkURL_noop triggerSortByDate_def
        originalReplaceState_def)

lemma checkURL_idem: "checkURL (checkURL b) = checkURL b"
proof (cases "needs_sort (location b)")
  case True
  have "\<not> needs_sort (location (checkURL b))"
    by (simp add: checkURL_fires [OF True] not_needs_sort_set_hash)
  then show ?thesis by (rule checkURL_noop)
next
  case False
  then show ?thesis by (simp add: checkURL_noop)
qed

lemma checkURL_funpow: "0 < n \<Longrightarrow> (checkURL ^^ n) b = checkURL b"
proof (induction n)
  case 0
  then show ?case by simp
next
  case (Suc n)
  then show ?case by (cases "n = 0") (simp_all add: checkURL_idem)
qed

lemma checkURL_funpow_noop: "\<not> needs_sort (location b) \<Longrightarrow> (checkURL ^^ n) b = b"
  by (induction n) (simp_all add: checkURL_noop)

text \<open>
  Claim C6. When the fragment of the current URL already contains the marker
  \<^verbatim>\<open>sort=date\<close>, any number of notifications leaves the browser state as it was:
  the URL is not rewritten, \<^verbatim>\<open>replaceState\<close> is not called and no sort is triggered.
\<close>

theorem checkURL_marker_present_no_effect:
  assumes "fragment (location b) = Some f" and "str_includes f sortParam"
  shows "(checkURL ^^ n) b = b"
proof -
  from assms have "str_includes (hash (location b)) sortParam"
    by (simp add: str_includes_hash_iff)
  then have "\<not> needs_sort (location b)"
    by (simp add: needs_sort_def)
  then show ?thesis by (rule checkURL_funpow_noop)
qed

theorem checkURL_marker_present_witness:
  "(checkURL ^^ 5) example_sorted = example_sorted"
proof -
  have 1: "fragment (location example_sorted) = Some ''sort=date''"
    by (simp add: example_sorted_def)
  have 2: "str_includes ''sort=date'' sortParam"
    by (simp add: sortParam_def)
  show ?thesis
    by (rule checkURL_marker_present_no_effect [OF 1 2])
qed

text \<open>
  Claim C5. When the path is an inbox path and the fragment lacks the marker, any
  non-empty sequence of notifications, with no change of the URL from outside in
  between, has this effect and no other: the browser's \<^verbatim>\<open>replaceState\<close> is called once,
  with the marked URL, and after it \<^verbatim>\<open>triggerSortByDate\<close> is called once (which clicks
  the dropdown button and starts the timer when the button is there). The notification
  that arrives from the script's own \<^verbatim>\<open>replaceState\<close> call finds the marker and does
  nothing, and so does every later one.
\<close>

theorem checkURL_triggers_exactly_once:
  assumes "inboxPattern (pathname (location b))"
    and "\<forall>f. fragment (location b) = Some f \<longrightarrow> \<not> str_includes f sortParam"
    and "0 < n"
  shows "(checkURL ^^ n) b =
           b\<lparr>location := set_hash (location b) sortParam,
             events := events b @
               [ReplaceState (set_hash (location b) sortParam), TriggerSortByDate] @
               (if dropdownButton b then [ClickDropdown, StartInterval] else [])\<rparr>
         \<and> history_replaceState b (set_hash (location b) sortParam) =
           originalReplaceState b (set_hash (location b) sortParam)
         \<and> \<not> needs_sort (location ((checkURL ^^ n) b))"
proof -
  from assms(1,2) have ns: "needs_sort (location b)"
    by (simp add: needs_sort_def str_includes_hash_iff)
  have run: "(checkURL ^^ n) b = checkURL b"
    using assms(3) by (rule checkURL_funpow)
  show ?thesis
    by (simp add: run checkURL_fires [OF ns] nested_checkURL_noop not_needs_sort_set_hash)
qed

theorem checkURL_triggers_exactly_once_witness:
  "(checkURL ^^ 3) example_inbox =
     \<lparr>location = \<lparr>origin = ''https://mail.proton.me'', pathname = ''/u/0/inbox'',
                  search = ''?x=1'', fragment = Some ''sort=date''\<rparr>,
      dropdownButton = True,
      events = [ReplaceState \<lparr>origin = ''https://mail.proton.me'', pathname = ''/u/0/inbox'',
                  search = ''?x=1'', fragment = Some ''sort=date''\<rparr>,
                TriggerSortByDate, ClickDropdown, StartInterval]\<rparr>"
proof -
  have 1: "inboxPattern (pathname (location example_inbox))"
    by (simp add: example_inbox_def inboxPattern_def is_digit_def)
  have 2: "\<forall>f. fragment (location example_inbox) = Some f \<longrightarrow> \<not> str_includes f sortParam"
    by (simp add: example_inbox_def sortParam_def)
  have 3: "0 < (3::nat)" by simp
  show ?thesis
    using checkURL_triggers_exactly_once [OF 1 2 3]
    by (simp add: example_inbox_def set_hash_def sortParam_def fragment_encode_char_def
        tab_or_newline_def)
qed

text \<open>
  Claim C10. When the path is an inbox path and the fragment lacks the marker,
  \<^verbatim>\<open>checkURL\<close> leaves the fragment equal to \<^verbatim>\<open>sort=date\<close>, whatever it was
  before, and leaves origin, path and query as they were.
\<close>

theorem checkURL_replaces_fragment:
  assumes "inboxPattern (pathname (location b))"
    and "\<forall>f. fragment (location b) = Some f \<longrightarrow> \<not> str_includes f sortParam"
  shows "fragment (location (checkURL b)) = Some ''sort=date''
         \<and> pathname (location (checkURL b)) = pathname (location b)
         \<and> search (location (checkURL b)) = search (location b)
         \<and> origin (location (checkURL b)) = origin (location b)"
proof -
  from assms have ns: "needs_sort (location b)"
    by (simp add: needs_sort_def str_includes_hash_iff)
  show ?thesis
    by (simp add: checkURL_fires [OF ns] set_hash_def sortParam_def fragment_encode_char_def
        tab_or_newline_def)
qed

theorem checkURL_replaces_fragment_witness:
  "fragment (location example_inbox) = Some ''filter=unread''
   \<and> fragment (location (checkURL example_inbox)) = Some ''sort=date''
   \<and> pathname (location (checkURL example_inbox)) = ''/u/0/inbox''
   \<and> search (location (checkURL example_inbox)) = ''?x=1''"
proof -
  have 1: "inboxPattern (pathname (location example_inbox))"
    by (simp add: example_inbox_def inboxPattern_def is_digit_def)
  have 2: "\<forall>f. fragment (location example_inbox) = Some f \<longrightarrow> \<not> str_includes f sortParam"
    by (simp add: example_inbox_def sortParam_def)
  show ?thesis
    using checkURL_replaces_fragment [OF 1 2]
    by (simp add: example_inbox_def)
qed

section \<open>Properties of the remove-signature script\<close>

lemma wf_childD:
  assumes "wf_dom rk h" and "r < length h" and "c \<in> set (childNodes (h ! r))"
  shows "c < length h" and "rk c < rk r" and "parentNode (h ! c) = Some r"
  using assms by (auto simp: wf_dom_def wf_node_def Let_def)

lemma wf_parentD:
  assumes "wf_dom rk h" and "r < length h" and "parentNode (h ! r) = Some p"
  shows "p < length h" and "r \<in> set (childNodes (h ! p))"
proof -
  from assms(1,2) have "wf_node rk h r" by (simp add: wf_dom_def)
  with assms(3) show "p < length h" and "r \<in> set (childNodes (h ! p))"
    by (simp_all add: wf_node_def Let_def)
qed

lemma wf_distinct: "wf_dom rk h \<Longrightarrow> r < length h \<Longrightarrow> distinct (childNodes (h ! r))"
  by (simp add: wf_dom_def wf_node_def Let_def)

lemma wf_rank_bound: "wf_dom rk h \<Longrightarrow> r < length h \<Longrightarrow> rk r < length h"
  by (simp add: wf_dom_def wf_node_def Let_def)

lemma wf_parent_kind:
  "wf_dom rk h \<Longrightarrow> r < length h \<Longrightarrow> childNodes (h ! r) \<noteq> [] \<Longrightarrow>
     nodeType (h ! r) \<in> {ELEMENT_NODE, DOCUMENT_NODE, DOCUMENT_FRAGMENT_NODE}"
  by (simp add: wf_dom_def wf_node_def Let_def)

lemma wf_ownerDocument:
  "wf_dom rk h \<Longrightarrow> r < length h \<Longrightarrow> nodeType (h ! r) \<noteq> DOCUMENT_NODE \<Longrightarrow>
     \<exists>d. ownerDocument (h ! r) = Some d"
  by (simp add: wf_dom_def wf_node_def Let_def)

lemma descendants_wf:
  assumes wf: "wf_dom rk h"
  shows "r < length h \<Longrightarrow> d \<in> set (descendants k h r) \<Longrightarrow>
           d < length h \<and> rk d < rk r \<and>
           (\<exists>q. parentNode (h ! d) = Some q \<and> q \<in> set (r # descendants k h r))"
proof (induction k arbitrary: r)
  case 0
  then show ?case by simp
next
  case (Suc k)
  from Suc.prems(2) obtain c where c: "c \<in> set (childNodes (h ! r))"
    and d: "d = c \<or> d \<in> set (descendants k h c)"
    by auto
  note cf = wf_childD [OF wf Suc.prems(1) c]
  show ?case
  proof (cases "d = c")
    case True
    with cf show ?thesis by simp
  next
    case False
    with d have dd: "d \<in> set (descendants k h c)" by simp
    from Suc.IH [OF cf(1) dd] obtain q where
      "d < length h" "rk d < rk c" "parentNode (h ! d) = Some q" "q \<in> set (c # descendants k h c)"
      by blast
    with cf(2) c show ?thesis by auto
  qed
qed

lemma descendants_cong:
  "(\<forall>d \<in> set (r # descendants k h r). childNodes (g ! d) = childNodes (h ! d)) \<Longrightarrow>
     descendants k g r = descendants k h r"
proof (induction k arbitrary: r)
  case 0
  then show ?case by simp
next
  case (Suc k)
  have same: "childNodes (g ! r) = childNodes (h ! r)"
    using Suc.prems by simp
  have "descendants k g c = descendants k h c" if "c \<in> set (childNodes (h ! r))" for c
  proof (rule Suc.IH)
    show "\<forall>d \<in> set (c # descendants k h c). childNodes (g ! d) = childNodes (h ! d)"
      using Suc.prems that by auto
  qed
  then show ?case by (simp add: same cong: map_cong)
qed

lemma descendants_fuel:
  assumes wf: "wf_dom rk h"
  shows "r < length h \<Longrightarrow> rk r < k \<Longrightarrow> descendants (k + j) h r = descendants k h r"
proof (induction k arbitrary: r)
  case 0
  then show ?case by simp
next
  case (Suc k)
  have "descendants (k + j) h c = descendants k h c" if "c \<in> set (childNodes (h ! r))" for c
  proof (rule Suc.IH)
    from wf_childD [OF wf Suc.prems(1) that] Suc.prems(2)
    show "c < length h" and "rk c < k" by simp_all
  qed
  then show ?case by (simp cong: map_cong)
qed

lemma inclusive_ancestors_range:
  assumes wf: "wf_dom rk h"
  shows "r < length h \<Longrightarrow> a \<in> set (inclusive_ancestors k h r) \<Longrightarrow> a < length h"
proof (induction k arbitrary: r)
  case 0
  then show ?case by simp
next
  case (Suc k)
  show ?case
  proof (cases "parentNode (h ! r)")
    case None
    with Suc.prems show ?thesis by simp
  next
    case (Some p)
    from wf_parentD(1) [OF wf Suc.prems(1) Some] have "p < length h" .
    with Suc.IH [of p] Suc.prems Some show ?thesis by auto
  qed
qed

lemma inclusive_ancestors_append:
  assumes wf: "wf_dom rk h"
  shows "r < length h \<Longrightarrow> inclusive_ancestors k (h @ xs) r = inclusive_ancestors k h r"
proof (induction k arbitrary: r)
  case 0
  then show ?case by simp
next
  case (Suc k)
  show ?case
  proof (cases "parentNode (h ! r)")
    case None
    with Suc.prems show ?thesis by (simp add: nth_append)
  next
    case (Some p)
    from wf_parentD(1) [OF wf Suc.prems Some] have "p < length h" .
    with Suc.IH [of p] Suc.prems Some show ?thesis by (simp add: nth_append)
  qed
qed

lemma cleaned_fields:
  assumes "cleaned h p cs rem brn g" and "r < length h"
  shows "nodeType (g ! r) = nodeType (h ! r)"
    and "localName (g ! r) = localName (h ! r)"
    and "classList (g ! r) = classList (h ! r)"
    and "attributes (g ! r) = attributes (h ! r)"
    and "ownerDocument (g ! r) = ownerDocument (h ! r)"
    and "parentNode (g ! r) = (if r \<in> rem then None else parentNode (h ! r))"
    and "childNodes (g ! r) = (if r = p then cs else childNodes (h ! r))"
  using assms by (simp_all add: cleaned_def)

lemma cleaned_length: "cleaned h p cs rem brn g \<Longrightarrow> length g = Suc (length h)"
  by (simp add: cleaned_def)

lemma cleaned_is_element:
  "cleaned h p cs rem brn g \<Longrightarrow> r < length h \<Longrightarrow> is_element g r = is_element h r"
  by (simp add: is_element_def cleaned_def)

lemma cleaned_remove:
  assumes c: "cleaned h p cs rem brn g"
    and q: "q < length h" and p: "p < length h" and qp: "q \<noteq> p"
    and par: "parentNode (h ! q) = Some p" and fresh: "q \<notin> rem"
  shows "cleaned h p (removeAll q cs) (insert q rem) brn (remove_node g q)"
proof -
  have len: "length g = Suc (length h)" using c by (rule cleaned_length)
  have gq: "parentNode (g ! q) = Some p"
    using cleaned_fields(6) [OF c q] fresh par by simp
  have gp: "childNodes (g ! p) = cs"
    using cleaned_fields(7) [OF c p] by simp
  have rn: "remove_node g q =
      (g[p := (g ! p)\<lparr>childNodes := removeAll q cs\<rparr>])[q := (g ! q)\<lparr>parentNode := None\<rparr>]"
    by (simp add: remove_node_def gq gp)
  show ?thesis
    unfolding cleaned_def
  proof (intro conjI allI impI)
    show "length (remove_node g q) = Suc (length h)" by (simp add: rn len)
    show "remove_node g q ! length h = brn"
      using c q p by (simp add: rn cleaned_def)
  next
    fix r assume r: "r < length h"
    from c r have gr: "g ! r = (h ! r)\<lparr>parentNode := (if r \<in> rem then None else parentNode (h ! r)),
        childNodes := (if r = p then cs else childNodes (h ! r))\<rparr>"
      by (simp add: cleaned_def)
    show "remove_node g q ! r = (h ! r)
        \<lparr>parentNode := if r \<in> insert q rem then None else parentNode (h ! r),
         childNodes := if r = p then removeAll q cs else childNodes (h ! r)\<rparr>"
      using r q p qp len by (simp add: rn gr nth_list_update)
  qed
qed

text \<open>Facts about the siblings of a node in a well-formed store.\<close>

lemma siblings_facts:
  assumes wf: "wf_dom rk h" and node: "node < length h"
    and par: "parentNode (h ! node) = Some p"
    and kids: "childNodes (h ! p) = L @ node # R"
  shows "p < length h" and "node \<notin> set L" and "node \<notin> set R"
    and "\<forall>x \<in> set L \<union> set R. x < length h \<and> x \<noteq> p \<and> parentNode (h ! x) = Some p"
    and "set L \<inter> set R = {}" and "p \<noteq> node" and "rk node < rk p"
proof -
  show p: "p < length h" by (rule wf_parentD(1) [OF wf node par])
  from wf_distinct [OF wf p] kids have d: "distinct (L @ node # R)" by simp
  then show "node \<notin> set L" and "node \<notin> set R" and "set L \<inter> set R = {}" by auto
  have "node \<in> set (childNodes (h ! p))" using kids by simp
  from wf_childD(2) [OF wf p this] show "rk node < rk p" .
  then show "p \<noteq> node" by auto
  show "\<forall>x \<in> set L \<union> set R. x < length h \<and> x \<noteq> p \<and> parentNode (h ! x) = Some p"
  proof
    fix x assume "x \<in> set L \<union> set R"
    then have "x \<in> set (childNodes (h ! p))" using kids by auto
    from wf_childD [OF wf p this] show "x < length h \<and> x \<noteq> p \<and> parentNode (h ! x) = Some p"
      by auto
  qed
qed

lemma takeWhile_neq: "x \<notin> set L \<Longrightarrow> takeWhile (\<lambda>c. c \<noteq> x) (L @ x # R) = L"
  by (induction L) auto

lemma dropWhile_neq: "x \<notin> set L \<Longrightarrow> dropWhile (\<lambda>c. c \<noteq> x) (L @ x # R) = x # R"
  by (induction L) auto

lemma last_option_Some: "last_option xs = Some x \<Longrightarrow> x \<in> set xs"
  by (auto simp: last_option_def split: if_splits)

lemma previous_in_left:
  assumes "node \<notin> set L" and "parentNode (h ! node) = Some p"
    and "childNodes (h ! p) = L @ node # R"
    and "previousElementSibling h node = Some q"
  shows "q \<in> set L" and "is_element h q"
proof -
  have tw: "takeWhile (\<lambda>c. c \<noteq> node) (L @ node # R) = L"
    using assms(1) by (rule takeWhile_neq)
  from assms(4) have "last_option (filter (is_element h) L) = Some q"
    by (simp add: previousElementSibling_def assms(2,3) tw split: if_splits)
  then have "q \<in> set (filter (is_element h) L)" by (rule last_option_Some)
  then show "q \<in> set L" and "is_element h q" by simp_all
qed

lemma new_element_sel:
  "nodeType (new_element doc name) = ELEMENT_NODE"
  "parentNode (new_element doc name) = None"
  "childNodes (new_element doc name) = []"
  "localName (new_element doc name) = name"
  "classList (new_element doc name) = []"
  by (simp_all add: new_element_def)

text \<open>Stage one: the line break is created and inserted.\<close>

lemma insert_line_break_cleaned:
  assumes wf: "wf_dom rk h" and node: "node < length h"
    and par: "parentNode (h ! node) = Some p"
    and notdoc: "nodeType (h ! p) \<noteq> DOCUMENT_NODE"
    and kids: "childNodes (h ! p) = L @ node # R"
    and doc: "ownerDocument (h ! node) = Some doc"
  shows "\<exists>g. insert_line_break h node = (Inr (), g) \<and>
           cleaned h p (L @ length h # node # R) {}
             ((new_element doc ''br'')\<lparr>parentNode := Some p\<rparr>) g"
proof -
  note sf = siblings_facts [OF wf node par kids]
  let ?h1 = "h @ [new_element doc ''br'']"
  let ?br = "length h"
  have p: "p < length h" by (rule sf(1))
  have kind: "nodeType (h ! p) \<in> {ELEMENT_NODE, DOCUMENT_NODE, DOCUMENT_FRAGMENT_NODE}"
    by (rule wf_parent_kind [OF wf p]) (simp add: kids)
  have anc: "?br \<notin> set (inclusive_ancestors (length ?h1) ?h1 p)"
  proof
    assume "?br \<in> set (inclusive_ancestors (length ?h1) ?h1 p)"
    then have "?br \<in> set (inclusive_ancestors (length ?h1) h p)"
      by (simp only: inclusive_ancestors_append [OF wf p])
    from inclusive_ancestors_range [OF wf p this] show False by simp
  qed
  have rm: "remove_node ?h1 ?br = ?h1"
    by (simp add: remove_node_def new_element_sel)
  have ib: "insert_before ?br node (L @ node # R) = L @ ?br # node # R"
    using sf(2) by (simp add: insert_before_def takeWhile_neq dropWhile_neq)
  let ?g = "(?h1[p := (?h1 ! p)\<lparr>childNodes := L @ ?br # node # R\<rparr>])
              [?br := (?h1 ! ?br)\<lparr>parentNode := Some p\<rparr>]"
  have "insertBefore ?h1 p ?br node = Inr ?g"
    using p node kind notdoc anc par
    by (auto simp add: insertBefore_def rm nth_append kids ib new_element_sel
          simp del: inclusive_ancestors.simps)
  then have 1: "insert_line_break h node = (Inr (), ?g)"
    using node par by (simp add: insert_line_break_def doc createElement_def nth_append)
  have 2: "cleaned h p (L @ ?br # node # R) {} ((new_element doc ''br'')\<lparr>parentNode := Some p\<rparr>) ?g"
    using p by (simp add: cleaned_def nth_list_update nth_append)
  from 1 2 show ?thesis by blast
qed

text \<open>Stage two: the previous element siblings are removed.\<close>

lemma previous_of_left_cleaned:
  assumes wf: "wf_dom rk h" and node: "node < length h"
    and par: "parentNode (h ! node) = Some p"
    and kids: "childNodes (h ! p) = L @ node # R"
    and c: "cleaned h p (L @ length h # node # R) {} brn g"
    and q: "q \<in> set L" and qe: "is_element h q"
  shows "previousElementSibling g q = previousElementSibling h q"
    and "previousElementSibling h q =
           last_option (filter (is_element h) (takeWhile (\<lambda>c. c \<noteq> q) L))"
proof -
  note sf = siblings_facts [OF wf node par kids]
  from sf(4) q have ql: "q < length h" and qpar: "parentNode (h ! q) = Some p" by auto
  have tw1: "takeWhile (\<lambda>c. c \<noteq> q) (L @ ys) = takeWhile (\<lambda>c. c \<noteq> q) L" for ys
    using q by (simp add: takeWhile_append1)
  have "filter (is_element g) (takeWhile (\<lambda>c. c \<noteq> q) L)
      = filter (is_element h) (takeWhile (\<lambda>c. c \<noteq> q) L)"
  proof (rule filter_cong [OF refl])
    fix x assume "x \<in> set (takeWhile (\<lambda>c. c \<noteq> q) L)"
    then have "x \<in> set L" by (rule set_takeWhileD [THEN conjunct1])
    with sf(4) have "x < length h" by auto
    then show "is_element g x = is_element h x" by (rule cleaned_is_element [OF c])
  qed
  moreover have "childNodes (g ! p) = L @ length h # node # R"
    using cleaned_fields(7) [OF c sf(1)] by simp
  moreover have "parentNode (g ! q) = Some p"
    using cleaned_fields(6) [OF c ql] qpar by simp
  moreover have "nodeType (g ! q) = nodeType (h ! q)"
    by (rule cleaned_fields(1) [OF c ql])
  ultimately show "previousElementSibling g q = previousElementSibling h q"
    by (simp add: previousElementSibling_def qpar kids tw1)
  show "previousElementSibling h q =
           last_option (filter (is_element h) (takeWhile (\<lambda>c. c \<noteq> q) L))"
    using qe by (simp add: previousElementSibling_def qpar kids tw1 is_element_def)
qed

lemma removeAll_filter: "removeAll q xs = filter (\<lambda>x. x \<noteq> q) xs"
  by (induction xs) auto

lemma remove_previous_cleaned:
  assumes wf: "wf_dom rk h" and node: "node < length h"
    and par: "parentNode (h ! node) = Some p"
    and kids: "childNodes (h ! p) = L @ node # R"
    and c: "cleaned h p (L @ length h # node # R) {} brn g"
  shows "cleaned h p (filter (\<lambda>x. x \<notin> set (removed_siblings h node)) L @ length h # node # R)
           (set (removed_siblings h node)) brn
           (remove_previous g (isEmptySignature h node) (previousElementSibling h node))"
    and "set (removed_siblings h node) \<subseteq> set L"
proof -
  note sf = siblings_facts [OF wf node par kids]
  have step: "cleaned h p (removeAll q cs @ length h # node # R) (insert q rem) brn (remove_node g' q)"
    if "cleaned h p (cs @ length h # node # R) rem brn g'" and "q \<in> set L" and "q \<notin> rem"
    for q cs rem g'
  proof -
    from sf(4) that(2) have ql: "q < length h" and qp: "q \<noteq> p" and qpar: "parentNode (h ! q) = Some p"
      by auto
    have "q \<noteq> length h" using ql by simp
    moreover have "q \<noteq> node" using that(2) sf(2) by auto
    moreover have "q \<notin> set R" using that(2) sf(5) by auto
    ultimately have "removeAll q (cs @ length h # node # R) = removeAll q cs @ length h # node # R"
      by simp
    with cleaned_remove [OF that(1) ql sf(1) qp qpar that(3)] show ?thesis by simp
  qed
  show "cleaned h p (filter (\<lambda>x. x \<notin> set (removed_siblings h node)) L @ length h # node # R)
           (set (removed_siblings h node)) brn
           (remove_previous g (isEmptySignature h node) (previousElementSibling h node))"
  proof (cases "previousElementSibling h node")
    case None
    with c show ?thesis by (simp add: removed_siblings_def remove_previous_def)
  next
    case (Some q)
    from previous_in_left [OF sf(2) par kids Some] have qL: "q \<in> set L" and qe: "is_element h q" .
    have one: "cleaned h p (removeAll q L @ length h # node # R) {q} brn (remove_node g q)"
      using step [OF c qL] by simp
    show ?thesis
    proof (cases "isEmptySignature h node")
      case False
      with Some one show ?thesis
        by (simp add: removed_siblings_def remove_previous_def removeAll_filter)
    next
      case True
      note pq = previous_of_left_cleaned [OF wf node par kids c qL qe]
      show ?thesis
      proof (cases "previousElementSibling h q")
        case None
        with Some True one pq(1) show ?thesis
          by (simp add: removed_siblings_def remove_previous_def removeAll_filter)
      next
        case (Some q2)
        with pq(2) have "last_option (filter (is_element h) (takeWhile (\<lambda>c. c \<noteq> q) L)) = Some q2"
          by simp
        then have "q2 \<in> set (filter (is_element h) (takeWhile (\<lambda>c. c \<noteq> q) L))"
          by (rule last_option_Some)
        then have "q2 \<in> set (takeWhile (\<lambda>c. c \<noteq> q) L)" by simp
        then have q2L: "q2 \<in> set L" and q2q: "q2 \<noteq> q"
          by (auto dest: set_takeWhileD)
        have two: "cleaned h p (removeAll q2 L @ length h # node # R) {q2} brn (remove_node g q2)"
          using step [OF c q2L] by simp
        have "cleaned h p (removeAll q (removeAll q2 L) @ length h # node # R) {q, q2} brn
                (remove_node (remove_node g q2) q)"
          using step [OF two qL] q2q by simp
        moreover have "removeAll q (removeAll q2 L) = filter (\<lambda>x. x \<noteq> q2 \<and> x \<noteq> q) L"
          by (simp add: removeAll_filter)
        moreover have "{q, q2} = {q2, q}" by auto
        ultimately show ?thesis
          using \<open>previousElementSibling h node = Some q\<close> True Some pq(1)
          by (simp add: removed_siblings_def remove_previous_def)
      qed
    qed
  qed
  show "set (removed_siblings h node) \<subseteq> set L"
  proof (cases "previousElementSibling h node")
    case None
    then show ?thesis by (simp add: removed_siblings_def)
  next
    case (Some q)
    from previous_in_left [OF sf(2) par kids Some] have qL: "q \<in> set L" and qe: "is_element h q" .
    note pq = previous_of_left_cleaned(2) [OF wf node par kids c qL qe]
    show ?thesis
    proof (cases "previousElementSibling h q")
      case None
      with Some qL show ?thesis by (simp add: removed_siblings_def)
    next
      case (Some q2)
      with pq have "last_option (filter (is_element h) (takeWhile (\<lambda>c. c \<noteq> q) L)) = Some q2"
        by simp
      then have "q2 \<in> set (filter (is_element h) (takeWhile (\<lambda>c. c \<noteq> q) L))"
        by (rule last_option_Some)
      then have "q2 \<in> set L" by (auto dest: set_takeWhileD)
      with Some qL \<open>previousElementSibling h node = Some q\<close> show ?thesis
        by (simp add: removed_siblings_def)
    qed
  qed
qed

text \<open>Stage three: the nested vendor signature is looked up and removed.\<close>

lemma parse_protonSignature:
  "parse_selector protonSignature = Some (ClassSelector ''protonmail_signature_block-proton'')"
  by (simp add: parse_selector_def protonSignature_def ident_char_def)

lemma selector_matches_cleaned:
  assumes "cleaned h p cs rem brn g" and "d < length h"
  shows "selector_matches g d sel = selector_matches h d sel"
  using cleaned_fields [OF assms] cleaned_is_element [OF assms]
  by (cases sel) simp_all

lemma below_node_facts:
  assumes wf: "wf_dom rk h" and node: "node < length h"
    and par: "parentNode (h ! node) = Some p"
    and kids: "childNodes (h ! p) = L @ node # R"
    and d: "d \<in> set (node # descendants k h node)"
  shows "d < length h" and "d \<noteq> p" and "rk d < rk p"
proof -
  note sf = siblings_facts [OF wf node par kids]
  have "d < length h \<and> rk d < rk p"
  proof (cases "d = node")
    case True
    with node sf(7) show ?thesis by simp
  next
    case False
    with d have "d \<in> set (descendants k h node)" by simp
    from descendants_wf [OF wf node this] sf(7) show ?thesis by auto
  qed
  then show "d < length h" and "d \<noteq> p" and "rk d < rk p" by auto
qed

lemma descendants_cleaned:
  assumes wf: "wf_dom rk h" and node: "node < length h"
    and par: "parentNode (h ! node) = Some p"
    and kids: "childNodes (h ! p) = L @ node # R"
    and c: "cleaned h p cs rem brn g"
  shows "descendants (length g) g node = descendants (length h) h node"
proof -
  have "descendants (Suc (length h)) g node = descendants (Suc (length h)) h node"
  proof (rule descendants_cong, rule ballI)
    fix d assume "d \<in> set (node # descendants (Suc (length h)) h node)"
    note bf = below_node_facts [OF wf node par kids this]
    from cleaned_fields(7) [OF c bf(1)] bf(2)
    show "childNodes (g ! d) = childNodes (h ! d)" by simp
  qed
  moreover have "descendants (length h + 1) h node = descendants (length h) h node"
    by (rule descendants_fuel [OF wf node wf_rank_bound [OF wf node]])
  ultimately show ?thesis by (simp add: cleaned_length [OF c])
qed

lemma querySelectorAll_cleaned:
  assumes wf: "wf_dom rk h" and node: "node < length h"
    and par: "parentNode (h ! node) = Some p"
    and kids: "childNodes (h ! p) = L @ node # R"
    and c: "cleaned h p cs rem brn g"
  shows "querySelectorAll g node s = querySelectorAll h node s"
proof (cases "parse_selector s")
  case None
  then show ?thesis by (simp add: querySelectorAll_def)
next
  case (Some sel)
  have "filter (\<lambda>d. selector_matches g d sel) (descendants (length h) h node)
      = filter (\<lambda>d. selector_matches h d sel) (descendants (length h) h node)"
  proof (rule filter_cong [OF refl])
    fix d assume "d \<in> set (descendants (length h) h node)"
    then have "d \<in> set (node # descendants (length h) h node)" by simp
    from below_node_facts(1) [OF wf node par kids this]
    show "selector_matches g d sel = selector_matches h d sel"
      by (rule selector_matches_cleaned [OF c])
  qed
  with Some show ?thesis
    by (simp add: querySelectorAll_def descendants_cleaned [OF wf node par kids c])
qed

lemma querySelector_SomeD:
  "querySelector h node s = Inr (Some d) \<Longrightarrow> d \<in> set (descendants (length h) h node)"
proof -
  assume a: "querySelector h node s = Inr (Some d)"
  then obtain ds sel where "parse_selector s = Some sel"
    and "filter (\<lambda>d. selector_matches h d sel) (descendants (length h) h node) = d # ds"
    by (auto simp: querySelector_def querySelectorAll_def split: option.splits sum.splits list.splits)
  then have "d \<in> set (filter (\<lambda>d. selector_matches h d sel) (descendants (length h) h node))"
    by simp
  then show ?thesis by simp
qed

lemma remove_nested_cleaned:
  assumes wf: "wf_dom rk h" and node: "node < length h"
    and par: "parentNode (h ! node) = Some p"
    and kids: "childNodes (h ! p) = L @ node # R"
    and c: "cleaned h p cs rem brn g" and rem: "rem \<subseteq> set L"
    and s: "s \<in> set (descendants (length h) h node)"
  shows "length (remove_node g s) = Suc (length h)"
    and "remove_node g s ! length h = brn"
    and "\<forall>r < length h. remove_node g s ! r =
           (h ! r)\<lparr>parentNode := (if r \<in> insert s rem then None else parentNode (h ! r)),
                   childNodes := (if r = p then cs else removeAll s (childNodes (h ! r)))\<rparr>"
proof -
  note sf = siblings_facts [OF wf node par kids]
  from descendants_wf [OF wf node s] obtain q where
    sl: "s < length h" and spar: "parentNode (h ! s) = Some q"
    and qd: "q \<in> set (node # descendants (length h) h node)"
    by blast
  note qf = below_node_facts [OF wf node par kids qd]
  have "s \<in> set (node # descendants (length h) h node)" using s by simp
  note sfacts = below_node_facts [OF wf node par kids this]
  have sq: "s \<noteq> q"
    using wf_childD(2) [OF wf qf(1) wf_parentD(2) [OF wf sl spar]] by auto
  have s_rem: "s \<notin> rem"
  proof
    assume "s \<in> rem"
    with rem sf(4) have "parentNode (h ! s) = Some p" by auto
    with spar qf(2) show False by simp
  qed
  have only: "s \<notin> set (childNodes (h ! r))" if "r < length h" and "r \<noteq> q" for r
    using wf_childD(3) [OF wf that(1), of s] spar that(2) by auto
  have len: "length g = Suc (length h)" by (rule cleaned_length [OF c])
  have gs: "parentNode (g ! s) = Some q"
    using cleaned_fields(6) [OF c sl] s_rem spar by simp
  have gq: "childNodes (g ! q) = childNodes (h ! q)"
    using cleaned_fields(7) [OF c qf(1)] qf(2) by simp
  have rn: "remove_node g s =
      (g[q := (g ! q)\<lparr>childNodes := removeAll s (childNodes (h ! q))\<rparr>])
        [s := (g ! s)\<lparr>parentNode := None\<rparr>]"
    by (simp add: remove_node_def gs gq)
  show "length (remove_node g s) = Suc (length h)" by (simp add: rn len)
  show "remove_node g s ! length h = brn"
    using c sl qf(1) by (simp add: rn cleaned_def)
  show "\<forall>r < length h. remove_node g s ! r =
           (h ! r)\<lparr>parentNode := (if r \<in> insert s rem then None else parentNode (h ! r)),
                   childNodes := (if r = p then cs else removeAll s (childNodes (h ! r)))\<rparr>"
  proof (intro allI impI)
    fix r assume r: "r < length h"
    from c r have gr: "g ! r = (h ! r)\<lparr>parentNode := (if r \<in> rem then None else parentNode (h ! r)),
        childNodes := (if r = p then cs else childNodes (h ! r))\<rparr>"
      by (simp add: cleaned_def)
    have keep: "r \<noteq> q \<Longrightarrow> removeAll s (childNodes (h ! r)) = childNodes (h ! r)"
      using only [OF r] by simp
    show "remove_node g s ! r =
           (h ! r)\<lparr>parentNode := (if r \<in> insert s rem then None else parentNode (h ! r)),
                   childNodes := (if r = p then cs else removeAll s (childNodes (h ! r)))\<rparr>"
    proof (cases "r = q")
      case True
      with gr have "g ! q = (h ! q)\<lparr>parentNode := (if q \<in> rem then None else parentNode (h ! q)),
          childNodes := (if q = p then cs else childNodes (h ! q))\<rparr>"
        by simp
      with True sl qf(1,2) sq len show ?thesis
        by (simp add: rn nth_list_update)
    next
      case False
      note rq = this
      show ?thesis
      proof (cases "r = s")
        case True
        with gr have "g ! s = (h ! s)\<lparr>parentNode := (if s \<in> rem then None else parentNode (h ! s)),
            childNodes := (if s = p then cs else childNodes (h ! s))\<rparr>"
          by simp
        moreover have "removeAll s (childNodes (h ! s)) = childNodes (h ! s)"
          using keep [OF rq] True by simp
        ultimately show ?thesis
          using True sl sfacts(2) len by (simp add: rn nth_list_update)
      next
        case False
        with rq r len keep [OF rq] show ?thesis
          by (simp add: rn gr nth_list_update)
      qed
    qed
  qed
qed

text \<open>The three stages together, for an element attached below a parent that is no document.\<close>

lemma removeSignature_attached:
  assumes wf: "wf_dom rk h" and node: "node < length h"
    and elem: "nodeType (h ! node) = ELEMENT_NODE"
    and par: "parentNode (h ! node) = Some p"
    and notdoc: "nodeType (h ! p) \<noteq> DOCUMENT_NODE"
    and kids: "childNodes (h ! p) = L @ node # R"
  shows "\<exists>h' doc.
      removeSignature_try h node = (Inr (nested_signature h node \<noteq> []), h')
      \<and> removeSignature h node = (Inr (nested_signature h node \<noteq> []), h')
      \<and> length h' = Suc (length h)
      \<and> ownerDocument (h ! node) = Some doc
      \<and> h' ! length h = (new_element doc ''br'')\<lparr>parentNode := Some p\<rparr>
      \<and> (\<forall>r < length h. h' ! r = (h ! r)
            \<lparr>parentNode :=
               (if r \<in> set (removed_siblings h node) \<union> set (nested_signature h node)
                then None else parentNode (h ! r)),
             childNodes :=
               (if r = p
                then filter (\<lambda>x. x \<notin> set (removed_siblings h node)) L @ length h # node # R
                else filter (\<lambda>x. x \<notin> set (nested_signature h node)) (childNodes (h ! r)))\<rparr>)"
proof -
  from wf_ownerDocument [OF wf node] elem obtain doc where doc: "ownerDocument (h ! node) = Some doc"
    by auto
  let ?brn = "(new_element doc ''br'')\<lparr>parentNode := Some p\<rparr>"
  let ?rem = "set (removed_siblings h node)"
  let ?L' = "filter (\<lambda>x. x \<notin> ?rem) L"
  from insert_line_break_cleaned [OF wf node par notdoc kids doc] obtain g2 where
    ilb: "insert_line_break h node = (Inr (), g2)"
    and c2: "cleaned h p (L @ length h # node # R) {} ?brn g2"
    by blast
  let ?g3 = "remove_previous g2 (isEmptySignature h node) (previousElementSibling h node)"
  note rp = remove_previous_cleaned [OF wf node par kids c2]
  have c3: "cleaned h p (?L' @ length h # node # R) ?rem ?brn ?g3" by (rule rp(1))
  have tr: "removeSignature_try h node = remove_proton_signature ?g3 node"
    using node by (simp add: removeSignature_try_def ilb)
  have hq: "has_querySelector (nodeType (?g3 ! node))"
    using cleaned_fields(1) [OF c3 node] elem by (simp add: has_querySelector_def)
  have qs: "querySelector ?g3 node protonSignature = querySelector h node protonSignature"
    by (simp add: querySelector_def querySelectorAll_cleaned [OF wf node par kids c3])
  have noerr: "querySelector h node protonSignature \<noteq> Inl e" for e
    by (simp add: querySelector_def querySelectorAll_def parse_protonSignature split: list.splits)
  show ?thesis
  proof (cases "querySelector h node protonSignature")
    case (Inl e)
    with noerr [of e] have False by blast
    then show ?thesis ..
  next
    case (Inr found)
    show ?thesis
    proof (cases found)
      case None
      with Inr have ns: "nested_signature h node = []" by (simp add: nested_signature_def)
      from Inr None have res: "removeSignature_try h node = (Inr False, ?g3)"
        by (simp add: tr remove_proton_signature_def hq qs)
      have "\<forall>r < length h. ?g3 ! r = (h ! r)
            \<lparr>parentNode := (if r \<in> ?rem then None else parentNode (h ! r)),
             childNodes := (if r = p then ?L' @ length h # node # R else childNodes (h ! r))\<rparr>"
        using c3 by (simp add: cleaned_def)
      with c3 res doc show ?thesis
        by (simp add: removeSignature_def ns cleaned_def)
    next
      case (Some s)
      with Inr have ns: "nested_signature h node = [s]" by (simp add: nested_signature_def)
      from Inr Some have res: "removeSignature_try h node = (Inr True, remove_node ?g3 s)"
        by (simp add: tr remove_proton_signature_def hq qs)
      from Inr Some have sd: "s \<in> set (descendants (length h) h node)"
        by (simp add: querySelector_SomeD)
      note fin = remove_nested_cleaned [OF wf node par kids c3 rp(2) sd]
      have "\<forall>r < length h. remove_node ?g3 s ! r = (h ! r)
            \<lparr>parentNode := (if r \<in> ?rem \<union> {s} then None else parentNode (h ! r)),
             childNodes := (if r = p then ?L' @ length h # node # R
                            else filter (\<lambda>x. x \<notin> {s}) (childNodes (h ! r)))\<rparr>"
        using fin(3) by (simp add: removeAll_filter)
      with fin(1,2) res doc show ?thesis
        by (simp add: removeSignature_def ns)
    qed
  qed
qed

lemma parent_not_document:
  assumes wf: "wf_dom rk h" and node: "node < length h"
    and elem: "nodeType (h ! node) = ELEMENT_NODE"
    and par: "parentNode (h ! node) = Some p"
    and kids: "childNodes (h ! p) = L @ node # R"
    and prev: "previousElementSibling h node = Some prev"
  shows "nodeType (h ! p) \<noteq> DOCUMENT_NODE"
proof
  assume d: "nodeType (h ! p) = DOCUMENT_NODE"
  note sf = siblings_facts [OF wf node par kids]
  from wf sf(1) d have "length (filter (is_element h) (childNodes (h ! p))) \<le> 1"
    by (simp add: wf_dom_def wf_node_def Let_def)
  moreover from previous_in_left [OF sf(2) par kids prev]
  have "filter (is_element h) L \<noteq> []" by (auto simp: filter_empty_conv)
  then have "0 < length (filter (is_element h) L)" by simp
  moreover have "is_element h node" using node elem by (simp add: is_element_def)
  ultimately show False by (simp add: kids)
qed

text \<open>
  Claim C1. Let the node be an element of a well-formed tree whose first element child
  does not carry the empty-signature class, which holds a nested vendor signature
  \<open>sig\<close> and has a previous element sibling \<open>prev\<close>; let \<open>p\<close> be its parent, with
  children \<open>L\<close>, the node, \<open>R\<close>. Then \<^verbatim>\<open>removeSignature\<close> returns true and the
  store changes in exactly this way: one new \<^verbatim>\<open>br\<close> element is created; the
  children of \<open>p\<close> become \<open>L\<close> without \<open>prev\<close>, the line break, the node, \<open>R\<close>;
  \<open>prev\<close> and \<open>sig\<close> lose their parent and \<open>sig\<close> leaves the child list it was in;
  every other field of every node is as before.
\<close>

theorem removeSignature_regular:
  assumes "wf_dom rk h" and "node < length h" and "nodeType (h ! node) = ELEMENT_NODE"
    and "\<not> isEmptySignature h node"
    and "querySelector h node protonSignature = Inr (Some sig)"
    and "previousElementSibling h node = Some prev"
    and "parentNode (h ! node) = Some p" and "childNodes (h ! p) = L @ node # R"
  shows "\<exists>h'. removeSignature h node = (Inr True, h')
      \<and> length h' = Suc (length h)
      \<and> h' ! length h =
          \<lparr>nodeType = ELEMENT_NODE, localName = ''br'', classList = [], attributes = [],
           parentNode = Some p, childNodes = [], ownerDocument = ownerDocument (h ! node)\<rparr>
      \<and> (\<forall>r < length h. h' ! r = (h ! r)
            \<lparr>parentNode := (if r = prev \<or> r = sig then None else parentNode (h ! r)),
             childNodes :=
               (if r = p then removeAll prev L @ [length h, node] @ R
                else removeAll sig (childNodes (h ! r)))\<rparr>)"
proof -
  note nd = parent_not_document [OF assms(1,2,3,7,8,6)]
  from assms(4,6) have rs: "removed_siblings h node = [prev]"
    by (simp add: removed_siblings_def)
  from assms(5) have ns: "nested_signature h node = [sig]"
    by (simp add: nested_signature_def)
  from removeSignature_attached [OF assms(1,2,3,7) nd assms(8)]
  show ?thesis
    by (auto simp add: rs ns removeAll_filter new_element_def)
qed

theorem removeSignature_regular_witness:
  "fst (removeSignature regular_editor 5) = Inr True
   \<and> childNodes (regular_editor ! 1) = [2, 3, 4, 5, 8]
   \<and> childNodes (snd (removeSignature regular_editor 5) ! 1) = [2, 4, 9, 5, 8]
   \<and> localName (snd (removeSignature regular_editor 5) ! 9) = ''br''
   \<and> parentNode (snd (removeSignature regular_editor 5) ! 3) = None
   \<and> parentNode (snd (removeSignature regular_editor 5) ! 7) = None
   \<and> childNodes (snd (removeSignature regular_editor 5) ! 5) = [6]"
proof -
  have 1: "wf_dom example_rank regular_editor" by code_simp
  have 2: "5 < length regular_editor" by code_simp
  have 3: "nodeType (regular_editor ! 5) = ELEMENT_NODE" by code_simp
  have 4: "\<not> isEmptySignature regular_editor 5" by code_simp
  have 5: "querySelector regular_editor 5 protonSignature = Inr (Some 7)" by code_simp
  have 6: "previousElementSibling regular_editor 5 = Some 3" by code_simp
  have 7: "parentNode (regular_editor ! 5) = Some 1" by code_simp
  have 8: "childNodes (regular_editor ! 1) = [2, 3, 4] @ 5 # [8]" by code_simp
  have len: "length regular_editor = 9" by code_simp
  from removeSignature_regular [OF 1 2 3 4 5 6 7 8] obtain h' where
    r: "removeSignature regular_editor 5 = (Inr True, h')"
    and br: "h' ! length regular_editor =
          \<lparr>nodeType = ELEMENT_NODE, localName = ''br'', classList = [], attributes = [],
           parentNode = Some 1, childNodes = [], ownerDocument = ownerDocument (regular_editor ! 5)\<rparr>"
    and rest: "\<forall>r < length regular_editor. h' ! r = (regular_editor ! r)
            \<lparr>parentNode := (if r = 3 \<or> r = 7 then None else parentNode (regular_editor ! r)),
             childNodes :=
               (if r = 1 then removeAll 3 [2, 3, 4] @ [length regular_editor, 5] @ [8]
                else removeAll 7 (childNodes (regular_editor ! r)))\<rparr>"
    by blast
  have c5: "childNodes (regular_editor ! 5) = [6, 7]" by code_simp
  from rest [rule_format, of 1] have a: "childNodes (h' ! 1) = [2, 4, 9, 5, 8]"
    by (simp add: len)
  from rest [rule_format, of 3] have b: "parentNode (h' ! 3) = None"
    by (simp add: len)
  from rest [rule_format, of 7] have c: "parentNode (h' ! 7) = None"
    by (simp add: len)
  from rest [rule_format, of 5] have d: "childNodes (h' ! 5) = [6]"
    by (simp add: len c5)
  from br have e: "localName (h' ! 9) = ''br''"
    by (simp add: len)
  from 8 have f: "childNodes (regular_editor ! 1) = [2, 3, 4, 5, 8]" by simp
  from r a b c d e f show ?thesis by simp
qed

text \<open>
  Claim C2. Let the node be an element of a well-formed tree whose first element child
  carries the empty-signature class, which holds a nested vendor signature \<open>sig\<close>, and
  whose previous element sibling \<open>prev\<close> has itself a previous element sibling
  \<open>prevPrev\<close>. Then \<^verbatim>\<open>removeSignature\<close> returns true, one \<^verbatim>\<open>br\<close> element is
  created and placed right before the node, \<open>prev\<close>, \<open>prevPrev\<close> and \<open>sig\<close> are
  removed from their parents, and nothing else changes.
\<close>

theorem removeSignature_empty:
  assumes "wf_dom rk h" and "node < length h" and "nodeType (h ! node) = ELEMENT_NODE"
    and "isEmptySignature h node"
    and "querySelector h node protonSignature = Inr (Some sig)"
    and "previousElementSibling h node = Some prev"
    and "previousElementSibling h prev = Some prevPrev"
    and "parentNode (h ! node) = Some p" and "childNodes (h ! p) = L @ node # R"
  shows "\<exists>h'. removeSignature h node = (Inr True, h')
      \<and> length h' = Suc (length h)
      \<and> h' ! length h =
          \<lparr>nodeType = ELEMENT_NODE, localName = ''br'', classList = [], attributes = [],
           parentNode = Some p, childNodes = [], ownerDocument = ownerDocument (h ! node)\<rparr>
      \<and> (\<forall>r < length h. h' ! r = (h ! r)
            \<lparr>parentNode :=
               (if r = prevPrev \<or> r = prev \<or> r = sig then None else parentNode (h ! r)),
             childNodes :=
               (if r = p then removeAll prev (removeAll prevPrev L) @ [length h, node] @ R
                else removeAll sig (childNodes (h ! r)))\<rparr>)"
proof -
  note nd = parent_not_document [OF assms(1,2,3,8,9,6)]
  from assms(4,6,7) have rs: "removed_siblings h node = [prevPrev, prev]"
    by (simp add: removed_siblings_def)
  from assms(5) have ns: "nested_signature h node = [sig]"
    by (simp add: nested_signature_def)
  from removeSignature_attached [OF assms(1,2,3,8) nd assms(9)]
  obtain h' doc where
    1: "removeSignature h node = (Inr (nested_signature h node \<noteq> []), h')"
    and 2: "length h' = Suc (length h)"
    and 3: "ownerDocument (h ! node) = Some doc"
    and 4: "h' ! length h = (new_element doc ''br'')\<lparr>parentNode := Some p\<rparr>"
    and 5: "\<forall>r < length h. h' ! r = (h ! r)
            \<lparr>parentNode :=
               (if r \<in> set (removed_siblings h node) \<union> set (nested_signature h node)
                then None else parentNode (h ! r)),
             childNodes :=
               (if r = p
                then filter (\<lambda>x. x \<notin> set (removed_siblings h node)) L @ length h # node # R
                else filter (\<lambda>x. x \<notin> set (nested_signature h node)) (childNodes (h ! r)))\<rparr>"
    by blast
  from 5 have "\<forall>r < length h. h' ! r = (h ! r)
            \<lparr>parentNode :=
               (if r = prevPrev \<or> r = prev \<or> r = sig then None else parentNode (h ! r)),
             childNodes :=
               (if r = p then removeAll prev (removeAll prevPrev L) @ [length h, node] @ R
                else removeAll sig (childNodes (h ! r)))\<rparr>"
    by (simp add: rs ns removeAll_filter)
  with 1 2 3 4 show ?thesis
    by (simp add: ns new_element_def)
qed

theorem removeSignature_empty_witness:
  "fst (removeSignature empty_editor 5) = Inr True
   \<and> childNodes (empty_editor ! 1) = [2, 3, 4, 5, 8]
   \<and> childNodes (snd (removeSignature empty_editor 5) ! 1) = [4, 9, 5, 8]
   \<and> localName (snd (removeSignature empty_editor 5) ! 9) = ''br''
   \<and> parentNode (snd (removeSignature empty_editor 5) ! 2) = None
   \<and> parentNode (snd (removeSignature empty_editor 5) ! 3) = None
   \<and> parentNode (snd (removeSignature empty_editor 5) ! 7) = None
   \<and> childNodes (snd (removeSignature empty_editor 5) ! 5) = [6]"
proof -
  have 1: "wf_dom example_rank empty_editor" by code_simp
  have 2: "5 < length empty_editor" by code_simp
  have 3: "nodeType (empty_editor ! 5) = ELEMENT_NODE" by code_simp
  have 4: "isEmptySignature empty_editor 5" by code_simp
  have 5: "querySelector empty_editor 5 protonSignature = Inr (Some 7)" by code_simp
  have 6: "previousElementSibling empty_editor 5 = Some 3" by code_simp
  have 7: "previousElementSibling empty_editor 3 = Some 2" by code_simp
  have 8: "parentNode (empty_editor ! 5) = Some 1" by code_simp
  have 9: "childNodes (empty_editor ! 1) = [2, 3, 4] @ 5 # [8]" by code_simp
  have len: "length empty_editor = 9" by code_simp
  from removeSignature_empty [OF 1 2 3 4 5 6 7 8 9] obtain h' where
    r: "removeSignature empty_editor 5 = (Inr True, h')"
    and br: "h' ! length empty_editor =
          \<lparr>nodeType = ELEMENT_NODE, localName = ''br'', classList = [], attributes = [],
           parentNode = Some 1, childNodes = [], ownerDocument = ownerDocument (empty_editor ! 5)\<rparr>"
    and rest: "\<forall>r < length empty_editor. h' ! r = (empty_editor ! r)
            \<lparr>parentNode := (if r = 2 \<or> r = 3 \<or> r = 7 then None else parentNode (empty_editor ! r)),
             childNodes :=
               (if r = 1 then removeAll 3 (removeAll 2 [2, 3, 4]) @ [length empty_editor, 5] @ [8]
                else removeAll 7 (childNodes (empty_editor ! r)))\<rparr>"
    by blast
  have c5: "childNodes (empty_editor ! 5) = [6, 7]" by code_simp
  from rest [rule_format, of 1] have a: "childNodes (h' ! 1) = [4, 9, 5, 8]"
    by (simp add: len)
  from rest [rule_format, of 2] have b2: "parentNode (h' ! 2) = None"
    by (simp add: len)
  from rest [rule_format, of 3] have b: "parentNode (h' ! 3) = None"
    by (simp add: len)
  from rest [rule_format, of 7] have c: "parentNode (h' ! 7) = None"
    by (simp add: len)
  from rest [rule_format, of 5] have d: "childNodes (h' ! 5) = [6]"
    by (simp add: len c5)
  from br have e: "localName (h' ! 9) = ''br''"
    by (simp add: len)
  from 9 have f: "childNodes (empty_editor ! 1) = [2, 3, 4, 5, 8]" by simp
  from r a b b2 c d e f show ?thesis by simp
qed

lemma removeSignature_no_parent:
  assumes node: "node < length h" and par: "parentNode (h ! node) = None"
    and doc: "ownerDocument (h ! node) = Some doc"
  shows "removeSignature_try h node = (Inl TypeError, h @ [new_element doc ''br''])"
    and "removeSignature h node = (Inr False, h @ [new_element doc ''br''])"
proof -
  have "insert_line_break h node = (Inl TypeError, h @ [new_element doc ''br''])"
    using node par doc by (simp add: insert_line_break_def createElement_def nth_append)
  then show tr: "removeSignature_try h node = (Inl TypeError, h @ [new_element doc ''br''])"
    using node by (simp add: removeSignature_try_def Let_def)
  show "removeSignature h node = (Inr False, h @ [new_element doc ''br''])"
    by (simp add: removeSignature_def tr)
qed

lemma removeSignature_document_parent:
  assumes wf: "wf_dom rk h" and node: "node < length h"
    and elem: "nodeType (h ! node) = ELEMENT_NODE"
    and par: "parentNode (h ! node) = Some p" and isdoc: "nodeType (h ! p) = DOCUMENT_NODE"
    and doc: "ownerDocument (h ! node) = Some doc"
  shows "removeSignature_try h node = (Inl HierarchyRequestError, h @ [new_element doc ''br''])"
    and "removeSignature h node = (Inr False, h @ [new_element doc ''br''])"
proof -
  let ?h1 = "h @ [new_element doc ''br'']"
  note pf = wf_parentD [OF wf node par]
  have e1: "is_element ?h1 node" using node elem by (simp add: is_element_def nth_append)
  have "node \<in> set (filter (is_element ?h1) (childNodes (?h1 ! p)))"
    using pf e1 by (simp add: nth_append)
  then have ne: "filter (is_element ?h1) (childNodes (?h1 ! p)) \<noteq> []"
    by (metis empty_iff list.set(1))
  have "insertBefore ?h1 p (length h) node = Inl HierarchyRequestError"
    using pf(1) node par isdoc ne
    by (simp add: insertBefore_def nth_append new_element_def del: inclusive_ancestors.simps)
  then have "insert_line_break h node = (Inl HierarchyRequestError, ?h1)"
    using node par doc by (simp add: insert_line_break_def createElement_def nth_append)
  then show tr: "removeSignature_try h node = (Inl HierarchyRequestError, ?h1)"
    using node by (simp add: removeSignature_try_def Let_def)
  show "removeSignature h node = (Inr False, ?h1)"
    by (simp add: removeSignature_def tr)
qed

lemma removeSignature_attached_reports:
  assumes "wf_dom rk h" and "node < length h" and "nodeType (h ! node) = ELEMENT_NODE"
    and "parentNode (h ! node) = Some p" and "nodeType (h ! p) \<noteq> DOCUMENT_NODE"
    and "childNodes (h ! p) = L @ node # R"
  shows "(fst (removeSignature h node) = Inr True
            \<longleftrightarrow> (\<exists>sig. querySelector h node protonSignature = Inr (Some sig)))
      \<and> (querySelector h node protonSignature = Inr None \<longrightarrow>
           (\<exists>h'. removeSignature_try h node = (Inr False, h')
              \<and> removeSignature h node = (Inr False, h')
              \<and> length h' = Suc (length h)
              \<and> h' ! length h =
                  \<lparr>nodeType = ELEMENT_NODE, localName = ''br'', classList = [], attributes = [],
                   parentNode = Some p, childNodes = [], ownerDocument = ownerDocument (h ! node)\<rparr>
              \<and> (\<forall>r < length h. h' ! r = (h ! r)
                    \<lparr>parentNode :=
                       (if r \<in> set (removed_siblings h node) then None else parentNode (h ! r)),
                     childNodes :=
                       (if r = p
                        then filter (\<lambda>x. x \<notin> set (removed_siblings h node)) L @ [length h, node] @ R
                        else childNodes (h ! r))\<rparr>)))"
proof -
  have ns: "nested_signature h node \<noteq> [] \<longleftrightarrow>
      (\<exists>sig. querySelector h node protonSignature = Inr (Some sig))"
    by (simp add: nested_signature_def split: sum.splits option.splits)
  have ns0: "querySelector h node protonSignature = Inr None \<Longrightarrow> nested_signature h node = []"
    by (simp add: nested_signature_def)
  from removeSignature_attached [OF assms]
  obtain h' doc where
    1: "removeSignature_try h node = (Inr (nested_signature h node \<noteq> []), h')"
    and 2: "removeSignature h node = (Inr (nested_signature h node \<noteq> []), h')"
    and 3: "length h' = Suc (length h)"
    and 4: "ownerDocument (h ! node) = Some doc"
    and 5: "h' ! length h = (new_element doc ''br'')\<lparr>parentNode := Some p\<rparr>"
    and 6: "\<forall>r < length h. h' ! r = (h ! r)
            \<lparr>parentNode :=
               (if r \<in> set (removed_siblings h node) \<union> set (nested_signature h node)
                then None else parentNode (h ! r)),
             childNodes :=
               (if r = p
                then filter (\<lambda>x. x \<notin> set (removed_siblings h node)) L @ length h # node # R
                else filter (\<lambda>x. x \<notin> set (nested_signature h node)) (childNodes (h ! r)))\<rparr>"
    by blast
  have a: "fst (removeSignature h node) = Inr True
            \<longleftrightarrow> (\<exists>sig. querySelector h node protonSignature = Inr (Some sig))"
    by (simp add: 2 ns)
  have b: "\<exists>h'. removeSignature_try h node = (Inr False, h')
              \<and> removeSignature h node = (Inr False, h')
              \<and> length h' = Suc (length h)
              \<and> h' ! length h =
                  \<lparr>nodeType = ELEMENT_NODE, localName = ''br'', classList = [], attributes = [],
                   parentNode = Some p, childNodes = [], ownerDocument = ownerDocument (h ! node)\<rparr>
              \<and> (\<forall>r < length h. h' ! r = (h ! r)
                    \<lparr>parentNode :=
                       (if r \<in> set (removed_siblings h node) then None else parentNode (h ! r)),
                     childNodes :=
                       (if r = p
                        then filter (\<lambda>x. x \<notin> set (removed_siblings h node)) L @ [length h, node] @ R
                        else childNodes (h ! r))\<rparr>)"
    if "querySelector h node protonSignature = Inr None"
    using 1 2 3 4 5 6 ns0 [OF that] by (auto simp add: new_element_def)
  from a b show ?thesis by blast
qed

text \<open>
  Claim C3, amended. Let the node be an element of a well-formed tree. If it has a parent
  \<open>p\<close> that is not a document, \<^verbatim>\<open>removeSignature\<close> returns true exactly when
  the node holds a nested vendor signature. When it holds none, the body of the
  function raises no exception and returns false, and the sibling cleanup is done all the
  same: the line break stands right before the node and the siblings of
  \<open>removed_siblings\<close> are removed; nothing else changes. If the node has no parent,
  line 82 raises a \<^verbatim>\<open>TypeError\<close>; if its parent is a document, the insertion is
  refused with a \<^verbatim>\<open>HierarchyRequestError\<close>. In both cases false is returned whether
  or not a vendor signature is nested, and the store afterwards is the old store and the
  new \<^verbatim>\<open>br\<close> element, which has no parent: no line break is inserted and no
  sibling is removed.
\<close>

theorem removeSignature_reports_nested:
  assumes "wf_dom rk h" and "node < length h" and "nodeType (h ! node) = ELEMENT_NODE"
  shows "(\<forall>p L R. parentNode (h ! node) = Some p \<and> nodeType (h ! p) \<noteq> DOCUMENT_NODE
            \<and> childNodes (h ! p) = L @ node # R \<longrightarrow>
         (fst (removeSignature h node) = Inr True
            \<longleftrightarrow> (\<exists>sig. querySelector h node protonSignature = Inr (Some sig)))
         \<and> (querySelector h node protonSignature = Inr None \<longrightarrow>
           (\<exists>h'. removeSignature_try h node = (Inr False, h')
              \<and> removeSignature h node = (Inr False, h')
              \<and> length h' = Suc (length h)
              \<and> h' ! length h =
                  \<lparr>nodeType = ELEMENT_NODE, localName = ''br'', classList = [], attributes = [],
                   parentNode = Some p, childNodes = [], ownerDocument = ownerDocument (h ! node)\<rparr>
              \<and> (\<forall>r < length h. h' ! r = (h ! r)
                    \<lparr>parentNode :=
                       (if r \<in> set (removed_siblings h node) then None else parentNode (h ! r)),
                     childNodes :=
                       (if r = p
                        then filter (\<lambda>x. x \<notin> set (removed_siblings h node)) L @ [length h, node] @ R
                        else childNodes (h ! r))\<rparr>))))
     \<and> (parentNode (h ! node) = None \<longrightarrow>
          (\<exists>doc. ownerDocument (h ! node) = Some doc
             \<and> removeSignature_try h node = (Inl TypeError, h @ [new_element doc ''br''])
             \<and> removeSignature h node = (Inr False, h @ [new_element doc ''br''])))
     \<and> (\<forall>p. parentNode (h ! node) = Some p \<and> nodeType (h ! p) = DOCUMENT_NODE \<longrightarrow>
          (\<exists>doc. ownerDocument (h ! node) = Some doc
             \<and> removeSignature_try h node = (Inl HierarchyRequestError, h @ [new_element doc ''br''])
             \<and> removeSignature h node = (Inr False, h @ [new_element doc ''br''])))"
proof (intro conjI allI impI)
  from wf_ownerDocument [OF assms(1,2)] assms(3)
  obtain doc where doc: "ownerDocument (h ! node) = Some doc" by auto
  {
    assume "parentNode (h ! node) = None"
    from removeSignature_no_parent [OF assms(2) this doc] doc
    show "\<exists>doc. ownerDocument (h ! node) = Some doc
             \<and> removeSignature_try h node = (Inl TypeError, h @ [new_element doc ''br''])
             \<and> removeSignature h node = (Inr False, h @ [new_element doc ''br''])"
      by simp
  }
  {
    fix p assume "parentNode (h ! node) = Some p \<and> nodeType (h ! p) = DOCUMENT_NODE"
    then have par: "parentNode (h ! node) = Some p" and d: "nodeType (h ! p) = DOCUMENT_NODE"
      by simp_all
    from removeSignature_document_parent [OF assms par d doc] doc
    show "\<exists>doc. ownerDocument (h ! node) = Some doc
             \<and> removeSignature_try h node = (Inl HierarchyRequestError, h @ [new_element doc ''br''])
             \<and> removeSignature h node = (Inr False, h @ [new_element doc ''br''])"
      by simp
  }
  fix p L R
  assume a: "parentNode (h ! node) = Some p \<and> nodeType (h ! p) \<noteq> DOCUMENT_NODE
            \<and> childNodes (h ! p) = L @ node # R"
  then have par: "parentNode (h ! node) = Some p" and nd: "nodeType (h ! p) \<noteq> DOCUMENT_NODE"
    and kids: "childNodes (h ! p) = L @ node # R" by simp_all
  note r = removeSignature_attached_reports [OF assms par nd kids]
  from r show "fst (removeSignature h node) = Inr True
            \<longleftrightarrow> (\<exists>sig. querySelector h node protonSignature = Inr (Some sig))"
    by (rule conjunct1)
  assume "querySelector h node protonSignature = Inr None"
  with r show "\<exists>h'. removeSignature_try h node = (Inr False, h')
              \<and> removeSignature h node = (Inr False, h')
              \<and> length h' = Suc (length h)
              \<and> h' ! length h =
                  \<lparr>nodeType = ELEMENT_NODE, localName = ''br'', classList = [], attributes = [],
                   parentNode = Some p, childNodes = [], ownerDocument = ownerDocument (h ! node)\<rparr>
              \<and> (\<forall>r < length h. h' ! r = (h ! r)
                    \<lparr>parentNode :=
                       (if r \<in> set (removed_siblings h node) then None else parentNode (h ! r)),
                     childNodes :=
                       (if r = p
                        then filter (\<lambda>x. x \<notin> set (removed_siblings h node)) L @ [length h, node] @ R
                        else childNodes (h ! r))\<rparr>)"
    by (rule conjunct2 [THEN mp])
qed

theorem removeSignature_reports_nested_witness:
  "fst (removeSignature unsigned_editor 3) = Inr False
   \<and> childNodes (snd (removeSignature unsigned_editor 3) ! 1) = [5, 3]
   \<and> parentNode (snd (removeSignature unsigned_editor 3) ! 2) = None
   \<and> localName (snd (removeSignature unsigned_editor 3) ! 5) = ''br''
   \<and> fst (removeSignature regular_editor 5) = Inr True
   \<and> removeSignature detached_signed_block 1
       = (Inr False, detached_signed_block @ [new_element 0 ''br''])
   \<and> removeSignature regular_editor 1 = (Inr False, regular_editor @ [new_element 0 ''br''])"
proof -
  have 1: "wf_dom unsigned_rank unsigned_editor" by code_simp
  have 2: "3 < length unsigned_editor" by code_simp
  have 3: "nodeType (unsigned_editor ! 3) = ELEMENT_NODE" by code_simp
  have 4: "parentNode (unsigned_editor ! 3) = Some 1" by code_simp
  have 5: "nodeType (unsigned_editor ! 1) \<noteq> DOCUMENT_NODE" by code_simp
  have 6: "childNodes (unsigned_editor ! 1) = [2] @ 3 # []" by code_simp
  have q: "querySelector unsigned_editor 3 protonSignature = Inr None" by code_simp
  have rs: "removed_siblings unsigned_editor 3 = [2]" by code_simp
  have len: "length unsigned_editor = 5" by code_simp
  from removeSignature_reports_nested [OF 1 2 3] 4 5 6 q obtain h' where
    r: "removeSignature unsigned_editor 3 = (Inr False, h')"
    and br: "h' ! length unsigned_editor =
          \<lparr>nodeType = ELEMENT_NODE, localName = ''br'', classList = [], attributes = [],
           parentNode = Some 1, childNodes = [], ownerDocument = ownerDocument (unsigned_editor ! 3)\<rparr>"
    and rest: "\<forall>r < length unsigned_editor. h' ! r = (unsigned_editor ! r)
            \<lparr>parentNode :=
               (if r \<in> set (removed_siblings unsigned_editor 3) then None
                else parentNode (unsigned_editor ! r)),
             childNodes :=
               (if r = 1
                then filter (\<lambda>x. x \<notin> set (removed_siblings unsigned_editor 3)) [2]
                       @ [length unsigned_editor, 3] @ []
                else childNodes (unsigned_editor ! r))\<rparr>"
    by blast
  from rest [rule_format, of 1] have a: "childNodes (h' ! 1) = [5, 3]"
    by (simp add: len rs)
  from rest [rule_format, of 2] have b: "parentNode (h' ! 2) = None"
    by (simp add: len rs)
  from br have e: "localName (h' ! 5) = ''br''"
    by (simp add: len)
  have w1: "wf_dom example_rank regular_editor" by code_simp
  have w2: "5 < length regular_editor" by code_simp
  have w3: "nodeType (regular_editor ! 5) = ELEMENT_NODE" by code_simp
  have w4: "parentNode (regular_editor ! 5) = Some 1" by code_simp
  have w5: "nodeType (regular_editor ! 1) \<noteq> DOCUMENT_NODE" by code_simp
  have w6: "childNodes (regular_editor ! 1) = [2, 3, 4] @ 5 # [8]" by code_simp
  have w7: "querySelector regular_editor 5 protonSignature = Inr (Some 7)" by code_simp
  from removeSignature_reports_nested [OF w1 w2 w3] w4 w5 w6 w7
  have t: "fst (removeSignature regular_editor 5) = Inr True" by blast
  have d1: "wf_dom (\<lambda>r. if r = 1 then 1 else 0) detached_signed_block" by code_simp
  have d2: "1 < length detached_signed_block" by code_simp
  have d3: "nodeType (detached_signed_block ! 1) = ELEMENT_NODE" by code_simp
  have d4: "parentNode (detached_signed_block ! 1) = None" by code_simp
  have d5: "ownerDocument (detached_signed_block ! 1) = Some 0" by code_simp
  from removeSignature_reports_nested [OF d1 d2 d3] d4 d5
  have u: "removeSignature detached_signed_block 1
       = (Inr False, detached_signed_block @ [new_element 0 ''br''])" by auto
  have r2: "1 < length regular_editor" by code_simp
  have r3: "nodeType (regular_editor ! 1) = ELEMENT_NODE" by code_simp
  have r4: "parentNode (regular_editor ! 1) = Some 0" by code_simp
  have r5: "nodeType (regular_editor ! 0) = DOCUMENT_NODE" by code_simp
  have r6: "ownerDocument (regular_editor ! 1) = Some 0" by code_simp
  from removeSignature_reports_nested [OF w1 r2 r3] r4 r5 r6
  have v: "removeSignature regular_editor 1 = (Inr False, regular_editor @ [new_element 0 ''br''])"
    by auto
  from r a b e t u v show ?thesis by simp
qed

text \<open>
  Claim C3 as stated fails for a signature block without a parent. The block without a
  nested vendor signature gets false, but no line break is inserted: the store afterwards
  is the old store and a new \<^verbatim>\<open>br\<close> element that has no parent. The block with a
  nested vendor signature gets false as well, so false does not tell that the vendor
  signature was absent.
\<close>

theorem removeSignature_detached_counterexample:
  "drop 1 signatureBlock \<in> set (classList (detached_block ! 1))
   \<and> querySelector detached_block 1 protonSignature = Inr None
   \<and> removeSignature detached_block 1 = (Inr False, detached_block @ [new_element 0 ''br''])
   \<and> parentNode (new_element 0 ''br'') = None
   \<and> querySelector detached_signed_block 1 protonSignature = Inr (Some 2)
   \<and> fst (removeSignature detached_signed_block 1) = Inr False"
proof -
  have 1: "drop 1 signatureBlock \<in> set (classList (detached_block ! 1))" by code_simp
  have 2: "querySelector detached_block 1 protonSignature = Inr None" by code_simp
  have 3: "removeSignature detached_block 1 = (Inr False, detached_block @ [new_element 0 ''br''])"
    by code_simp
  have 4: "parentNode (new_element 0 ''br'') = None" by code_simp
  have 5: "querySelector detached_signed_block 1 protonSignature = Inr (Some 2)" by code_simp
  have 6: "fst (removeSignature detached_signed_block 1) = Inr False" by code_simp
  from 1 2 3 4 5 6 show ?thesis by blast
qed

lemma removeSignature_returns: "\<exists>b h'. removeSignature h node = (Inr b, h')"
proof (cases "removeSignature_try h node")
  case (Pair r h')
  then show ?thesis by (cases r) (auto simp add: removeSignature_def)
qed

lemma remove_if_signed_calls:
  "\<exists>h' cs. remove_if_signed (h, calls) node = (Inr (), (h', calls @ cs)) \<and> (cs = [] \<or> cs = [node])"
proof -
  have noerr: "querySelector h node protonSignature \<noteq> Inl e" for e
    by (simp add: querySelector_def querySelectorAll_def parse_protonSignature split: list.splits)
  from removeSignature_returns [of h node] obtain b h' where
    r: "removeSignature h node = (Inr b, h')" by blast
  show ?thesis
  proof (cases "querySelector h node protonSignature")
    case (Inl e)
    with noerr [of e] have False by blast
    then show ?thesis ..
  next
    case (Inr found)
    then show ?thesis by (cases found) (simp_all add: remove_if_signed_def r)
  qed
qed

lemma signature_added_node_calls:
  "\<exists>h' cs. signature_added_node (h, calls) node = (Inr (), (h', calls @ cs)) \<and> (cs = [] \<or> cs = [node])"
  using remove_if_signed_calls [of h calls node]
  by (auto simp: signature_added_node_def)

lemma for_each_added_calls:
  "\<exists>h' cs. for_each signature_added_node ns (h, calls) = (Inr (), (h', calls @ cs))
      \<and> count_list cs n \<le> count_list ns n"
proof (induction ns arbitrary: h calls)
  case Nil
  then show ?case by simp
next
  case (Cons x xs)
  from signature_added_node_calls [of h calls x] obtain h1 c1 where
    1: "signature_added_node (h, calls) x = (Inr (), (h1, calls @ c1))"
    and 2: "c1 = [] \<or> c1 = [x]" by blast
  from Cons.IH [of h1 "calls @ c1"] obtain h2 c2 where
    3: "for_each signature_added_node xs (h1, calls @ c1) = (Inr (), (h2, (calls @ c1) @ c2))"
    and 4: "count_list c2 n \<le> count_list xs n" by blast
  have "for_each signature_added_node (x # xs) (h, calls) = (Inr (), (h2, calls @ (c1 @ c2)))"
    by (simp add: 1 3)
  moreover have "count_list (c1 @ c2) n \<le> count_list (x # xs) n"
    using 2 4 by auto
  ultimately show ?case by blast
qed

lemma for_each_mutations_calls:
  "\<exists>h' cs. for_each (\<lambda>s addedNodes. for_each signature_added_node addedNodes s) ms (h, calls)
        = (Inr (), (h', calls @ cs))
      \<and> count_list cs n \<le> count_list (concat ms) n"
proof (induction ms arbitrary: h calls)
  case Nil
  then show ?case by simp
next
  case (Cons m ms)
  from for_each_added_calls [of m h calls n] obtain h1 c1 where
    1: "for_each signature_added_node m (h, calls) = (Inr (), (h1, calls @ c1))"
    and 2: "count_list c1 n \<le> count_list m n" by blast
  from Cons.IH [of h1 "calls @ c1"] obtain h2 c2 where
    3: "for_each (\<lambda>s addedNodes. for_each signature_added_node addedNodes s) ms (h1, calls @ c1)
          = (Inr (), (h2, (calls @ c1) @ c2))"
    and 4: "count_list c2 n \<le> count_list (concat ms) n" by blast
  have "for_each (\<lambda>s addedNodes. for_each signature_added_node addedNodes s) (m # ms) (h, calls)
      = (Inr (), (h2, calls @ (c1 @ c2)))"
    by (simp add: 1 3)
  moreover have "count_list (c1 @ c2) n \<le> count_list (concat (m # ms)) n"
    using 2 4 by simp
  ultimately show ?case by blast
qed

text \<open>
  Claim C4. For every store and every node, \<^verbatim>\<open>removeSignature\<close> returns a boolean
  and never completes with an exception; whenever the body of its \<^verbatim>\<open>try\<close> raises,
  the result is false, in the store as the exception left it. The observer's callback
  never completes with an exception either, and calls \<^verbatim>\<open>removeSignature\<close> on a node
  at most once for each time the node is listed among the added nodes, whatever the
  calls return.
\<close>

theorem removeSignature_never_throws:
  "(\<exists>b h'. removeSignature h node = (Inr b, h'))
   \<and> (\<forall>e h'. removeSignature_try h node = (Inl e, h') \<longrightarrow>
          removeSignature h node = (Inr False, h'))
   \<and> fst (signature_observer_callback h mutations) = Inr ()
   \<and> count_list (snd (snd (signature_observer_callback h mutations))) node
        \<le> count_list (concat mutations) node"
proof -
  from for_each_mutations_calls [of mutations h "[]" node] obtain h' cs where
    "signature_observer_callback h mutations = (Inr (), (h', cs))"
    and "count_list cs node \<le> count_list (concat mutations) node"
    by (auto simp: signature_observer_callback_def)
  then show ?thesis
    by (simp add: removeSignature_returns) (simp add: removeSignature_def)
qed

theorem removeSignature_never_throws_witness:
  "removeSignature_try detached_signed_block 1
     = (Inl TypeError, detached_signed_block @ [new_element 0 ''br''])
   \<and> removeSignature detached_signed_block 1
     = (Inr False, detached_signed_block @ [new_element 0 ''br''])
   \<and> signature_observer_callback detached_signed_block [[1]]
     = (Inr (), detached_signed_block @ [new_element 0 ''br''], [1])"
proof -
  have 1: "removeSignature_try detached_signed_block 1
     = (Inl TypeError, detached_signed_block @ [new_element 0 ''br''])"
    by code_simp
  from removeSignature_never_throws [of detached_signed_block 1 "[[1]]"] 1
  have 2: "removeSignature detached_signed_block 1
     = (Inr False, detached_signed_block @ [new_element 0 ''br''])"
    by blast
  have 3: "signature_observer_callback detached_signed_block [[1]]
     = (Inr (), detached_signed_block @ [new_element 0 ''br''], [1])"
    by code_simp
  from 1 2 3 show ?thesis by blast
qed

lemma removed_siblings_left:
  assumes wf: "wf_dom rk h" and node: "node < length h"
    and elem: "nodeType (h ! node) = ELEMENT_NODE"
    and par: "parentNode (h ! node) = Some p"
    and notdoc: "nodeType (h ! p) \<noteq> DOCUMENT_NODE"
    and kids: "childNodes (h ! p) = L @ node # R"
  shows "set (removed_siblings h node) \<subseteq> set L"
proof -
  from wf_ownerDocument [OF wf node] elem obtain doc where doc: "ownerDocument (h ! node) = Some doc"
    by auto
  from insert_line_break_cleaned [OF wf node par notdoc kids doc] obtain g2 where
    "cleaned h p (L @ length h # node # R) {}
       ((new_element doc ''br'')\<lparr>parentNode := Some p\<rparr>) g2"
    by blast
  from remove_previous_cleaned(2) [OF wf node par kids this] show ?thesis .
qed

lemma nested_signature_facts:
  assumes wf: "wf_dom rk h" and node: "node < length h"
    and par: "parentNode (h ! node) = Some p"
    and kids: "childNodes (h ! p) = L @ node # R"
    and s: "s \<in> set (nested_signature h node)"
  shows "s < length h" and "s \<noteq> node" and "s \<noteq> p" and "parentNode (h ! s) \<noteq> Some p"
    and "s \<notin> set L" and "s \<notin> set R"
proof -
  note sf = siblings_facts [OF wf node par kids]
  from s have "querySelector h node protonSignature = Inr (Some s)"
    by (auto simp: nested_signature_def split: sum.splits option.splits)
  then have sd: "s \<in> set (descendants (length h) h node)" by (rule querySelector_SomeD)
  from descendants_wf [OF wf node sd] obtain q where
    sl: "s < length h" and rk: "rk s < rk node" and spar: "parentNode (h ! s) = Some q"
    and qd: "q \<in> set (node # descendants (length h) h node)" by blast
  note qf = below_node_facts [OF wf node par kids qd]
  show "s < length h" by (rule sl)
  show "s \<noteq> node" using rk by auto
  show "s \<noteq> p" using rk sf(7) by auto
  show np: "parentNode (h ! s) \<noteq> Some p" using spar qf(2) by simp
  show "s \<notin> set L" using sf(4) np by auto
  show "s \<notin> set R" using sf(4) np by auto
qed

text \<open>
  The store stays well formed. For an element attached below a parent that is no document,
  the store that \<open>removeSignature\<close> leaves is again a forest whose parent and child
  links agree, with the inserted line break as one new leaf. So the statements above may be
  applied again to the store a call returns, as the observer does for one added node after
  another.
\<close>

theorem removeSignature_preserves_wf:
  assumes wf: "wf_dom rk h" and node: "node < length h"
    and elem: "nodeType (h ! node) = ELEMENT_NODE"
    and par: "parentNode (h ! node) = Some p"
    and notdoc: "nodeType (h ! p) \<noteq> DOCUMENT_NODE"
  shows "wf_dom (rk(length h := 0)) (snd (removeSignature h node))"
proof -
  from wf_parentD(2) [OF wf node par] obtain L R where kids: "childNodes (h ! p) = L @ node # R"
    by (auto dest: split_list)
  note sf = siblings_facts [OF wf node par kids]
  let ?rem = "set (removed_siblings h node)"
  let ?sig = "set (nested_signature h node)"
  let ?L' = "filter (\<lambda>x. x \<notin> ?rem) L"
  let ?br = "length h"
  let ?rk = "rk(length h := 0)"
  from removeSignature_attached [OF wf node elem par notdoc kids] obtain h' doc where
    res: "removeSignature h node = (Inr (nested_signature h node \<noteq> []), h')"
    and len: "length h' = Suc (length h)"
    and brn: "h' ! length h = (new_element doc ''br'')\<lparr>parentNode := Some p\<rparr>"
    and old: "\<forall>r < length h. h' ! r = (h ! r)
            \<lparr>parentNode := (if r \<in> ?rem \<union> ?sig then None else parentNode (h ! r)),
             childNodes :=
               (if r = p then ?L' @ length h # node # R
                else filter (\<lambda>x. x \<notin> ?sig) (childNodes (h ! r)))\<rparr>"
    by blast
  note remL = removed_siblings_left [OF wf node elem par notdoc kids]
  note nf = nested_signature_facts [OF wf node par kids]
  have kidsp: "childNodes (h' ! p) = ?L' @ ?br # node # R"
    using old sf(1) by simp
  have rk_old: "?rk r = rk r" if "r < length h" for r using that by simp
  have elem_old: "is_element h' c = is_element h c" if "c < length h" for c
    using old that len by (simp add: is_element_def)
  have keeps_parent: "parentNode (h' ! c) = parentNode (h ! c)"
    if "c < length h" and "c \<notin> ?rem" and "c \<notin> ?sig" for c
    using old that by simp
  have wf_br: "wf_node ?rk h' ?br"
  proof -
    have "0 < rk p" using sf(7) by simp
    then show ?thesis
      using sf(1) len
      by (simp add: wf_node_def brn new_element_def kidsp)
  qed
  have wf_old: "wf_node ?rk h' r" if r: "r < length h" for r
  proof -
    let ?cs = "if r = p then ?L' @ ?br # node # R
               else filter (\<lambda>x. x \<notin> ?sig) (childNodes (h ! r))"
    from old r have hr: "h' ! r = (h ! r)
            \<lparr>parentNode := (if r \<in> ?rem \<union> ?sig then None else parentNode (h ! r)),
             childNodes := ?cs\<rparr>" by simp
    from wf r have wr: "wf_node rk h r" by (simp add: wf_dom_def)
    have a: "?rk r < length h'" using wf_rank_bound [OF wf r] r len by simp
    have b: "distinct ?cs"
    proof (cases "r = p")
      case True
      have "distinct (L @ node # R)" using wf_distinct [OF wf sf(1)] kids by simp
      moreover have "\<forall>x \<in> set L \<union> set R. x \<noteq> ?br" using sf(4) by auto
      ultimately show ?thesis using True node by auto
    next
      case False
      with wf_distinct [OF wf r] show ?thesis by simp
    qed
    have c: "c < length h' \<and> ?rk c < ?rk r \<and> parentNode (h' ! c) = Some r" if cin: "c \<in> set ?cs" for c
    proof (cases "r = p")
      case True
      with cin have "c \<in> set ?L' \<or> c = ?br \<or> c = node \<or> c \<in> set R" by auto
      then show ?thesis
      proof (elim disjE)
        assume "c \<in> set ?L'"
        then have cl: "c \<in> set L" and cr: "c \<notin> ?rem" by auto
        with sf(4) have c1: "c < length h" "parentNode (h ! c) = Some p" by auto
        have "c \<notin> ?sig" using nf(5) cl by auto
        with keeps_parent [OF c1(1) cr] c1 True wf_childD(2) [OF wf sf(1), of c] kids cl len r
        show ?thesis by simp
      next
        assume "c = ?br"
        with True brn len sf(7) r show ?thesis by (simp add: new_element_def)
      next
        assume cn: "c = node"
        have "node \<notin> ?rem" using remL sf(2) by auto
        moreover have "node \<notin> ?sig" using nf(2) by auto
        ultimately show ?thesis
          using keeps_parent [OF node] cn par True sf(7) node len r by simp
      next
        assume cR: "c \<in> set R"
        with sf(4) have c1: "c < length h" "parentNode (h ! c) = Some p" by auto
        have "c \<notin> ?rem" using remL cR sf(5) by auto
        moreover have "c \<notin> ?sig" using nf(6) cR by auto
        ultimately show ?thesis
          using keeps_parent [OF c1(1)] c1 True wf_childD(2) [OF wf sf(1), of c] kids cR len r
          by simp
      qed
    next
      case False
      with cin have cc: "c \<in> set (childNodes (h ! r))" and cs: "c \<notin> ?sig" by auto
      note cf = wf_childD [OF wf r cc]
      have "c \<notin> ?rem"
      proof
        assume "c \<in> ?rem"
        with remL sf(4) have "parentNode (h ! c) = Some p" by auto
        with cf(3) False show False by simp
      qed
      with keeps_parent [OF cf(1) _ cs] cf len r show ?thesis by simp
    qed
    have d: "case parentNode (h' ! r) of None \<Rightarrow> True
             | Some q \<Rightarrow> q < length h' \<and> r \<in> set (childNodes (h' ! q))"
    proof (cases "r \<in> ?rem \<union> ?sig")
      case True
      with hr show ?thesis by simp
    next
      case False
      show ?thesis
      proof (cases "parentNode (h ! r)")
        case None
        with hr False show ?thesis by simp
      next
        case (Some q)
        note qf = wf_parentD [OF wf r Some]
        have "r \<in> set (childNodes (h' ! q))"
        proof (cases "q = p")
          case True
          with qf(2) kids have "r \<in> set L \<or> r = node \<or> r \<in> set R" by auto
          with False show ?thesis by (auto simp: True kidsp)
        next
          case False
          with old qf(1) have "childNodes (h' ! q) = filter (\<lambda>x. x \<notin> ?sig) (childNodes (h ! q))"
            by simp
          with qf(2) \<open>r \<notin> ?rem \<union> ?sig\<close> show ?thesis by simp
        qed
        with hr False Some qf(1) len show ?thesis by simp
      qed
    qed
    have e: "?cs \<noteq> [] \<longrightarrow> nodeType (h' ! r) \<in> {ELEMENT_NODE, DOCUMENT_NODE, DOCUMENT_FRAGMENT_NODE}"
    proof
      assume ne: "?cs \<noteq> []"
      have "childNodes (h ! r) \<noteq> []"
      proof (cases "r = p")
        case True
        with kids show ?thesis by simp
      next
        case False
        with ne show ?thesis by auto
      qed
      from wf_parent_kind [OF wf r this] hr
      show "nodeType (h' ! r) \<in> {ELEMENT_NODE, DOCUMENT_NODE, DOCUMENT_FRAGMENT_NODE}" by simp
    qed
    have f: "nodeType (h' ! r) = DOCUMENT_NODE \<longrightarrow> length (filter (is_element h') ?cs) \<le> 1"
    proof
      assume "nodeType (h' ! r) = DOCUMENT_NODE"
      with hr have dn: "nodeType (h ! r) = DOCUMENT_NODE" by simp
      with notdoc have rp: "r \<noteq> p" by auto
      from wr dn have le1: "length (filter (is_element h) (childNodes (h ! r))) \<le> 1"
        by (simp add: wf_node_def Let_def)
      have "filter (is_element h') (filter (\<lambda>x. x \<notin> ?sig) (childNodes (h ! r)))
          = filter (\<lambda>x. x \<notin> ?sig) (filter (is_element h) (childNodes (h ! r)))"
        unfolding filter_filter
      proof (rule filter_cong [OF refl])
        fix x assume "x \<in> set (childNodes (h ! r))"
        from wf_childD(1) [OF wf r this] have "is_element h' x = is_element h x"
          by (rule elem_old)
        then show "(x \<notin> ?sig \<and> is_element h' x) = (is_element h x \<and> x \<notin> ?sig)"
          by auto
      qed
      moreover have "length (filter (\<lambda>x. x \<notin> ?sig) (filter (is_element h) (childNodes (h ! r))))
          \<le> length (filter (is_element h) (childNodes (h ! r)))"
        by (rule length_filter_le)
      ultimately show "length (filter (is_element h') ?cs) \<le> 1"
        using rp le1 by simp
    qed
    have g: "nodeType (h' ! r) \<noteq> DOCUMENT_NODE \<longrightarrow> ownerDocument (h' ! r) \<noteq> None"
      using wr hr by (simp add: wf_node_def Let_def)
    have c': "\<forall>c \<in> set (childNodes (h' ! r)).
        c < length h' \<and> ?rk c < ?rk r \<and> parentNode (h' ! c) = Some r"
      using c hr by simp
    from a b c' d e f g show ?thesis
      unfolding wf_node_def Let_def using hr by simp
  qed
  have "wf_dom ?rk h'"
    unfolding wf_dom_def
  proof (intro allI impI)
    fix r assume "r < length h'"
    with len have "r < length h \<or> r = length h" by auto
    with wf_old wf_br show "wf_node ?rk h' r" by auto
  qed
  with res show ?thesis by simp
qed

theorem removeSignature_preserves_wf_witness:
  "wf_dom example_rank regular_editor
   \<and> wf_dom (example_rank(length regular_editor := 0)) (snd (removeSignature regular_editor 5))"
proof -
  have 1: "wf_dom example_rank regular_editor" by code_simp
  have 2: "5 < length regular_editor" by code_simp
  have 3: "nodeType (regular_editor ! 5) = ELEMENT_NODE" by code_simp
  have 4: "parentNode (regular_editor ! 5) = Some 1" by code_simp
  have 5: "nodeType (regular_editor ! 1) \<noteq> DOCUMENT_NODE" by code_simp
  from removeSignature_preserves_wf [OF 1 2 3 4 5] 1 show ?thesis by blast
qed

section \<open>Properties of the polling loops and the composer observer\<close>

lemma checkDoc_bounds:
  "attempts < maxInitAttempts \<Longrightarrow>
     (case checkDoc probe attempts waited of
        (outcome, n, w) \<Rightarrow>
          attempts < n \<and> n \<le> maxInitAttempts
          \<and> w = waited + (n - 1 - attempts) * initRetryDelay
          \<and> (\<forall>i. attempts < i \<and> i < n \<longrightarrow> usable_doc (probe i) = None)
          \<and> (case outcome of
                Fulfilled d \<Rightarrow> usable_doc (probe n) = Some d
              | Rejected e \<Rightarrow> n = maxInitAttempts \<and> usable_doc (probe n) = None
                  \<and> e = Error ''Failed to initialize editor after max attempts''))"
proof (induction probe attempts waited rule: checkDoc.induct)
  case (1 probe attempts waited)
  show ?case
  proof (cases "usable_doc (probe (attempts + 1))")
    case (Some d)
    with "1.prems" show ?thesis by (auto simp add: checkDoc.simps [of probe attempts waited])
  next
    case None
    show ?thesis
    proof (cases "attempts + 1 \<ge> maxInitAttempts")
      case True
      with None "1.prems" show ?thesis by (auto simp add: checkDoc.simps [of probe attempts waited])
    next
      case False
      then have lt: "attempts + 1 < maxInitAttempts" by simp
      have ih: "case checkDoc probe (attempts + 1) (waited + initRetryDelay) of
        (outcome, n, w) \<Rightarrow>
          attempts + 1 < n \<and> n \<le> maxInitAttempts
          \<and> w = waited + initRetryDelay + (n - 1 - (attempts + 1)) * initRetryDelay
          \<and> (\<forall>i. attempts + 1 < i \<and> i < n \<longrightarrow> usable_doc (probe i) = None)
          \<and> (case outcome of
                Fulfilled d \<Rightarrow> usable_doc (probe n) = Some d
              | Rejected e \<Rightarrow> n = maxInitAttempts \<and> usable_doc (probe n) = None
                  \<and> e = Error ''Failed to initialize editor after max attempts'')"
        using "1.IH" [OF None False lt] .
      obtain outcome n w where r: "checkDoc probe (attempts + 1) (waited + initRetryDelay) = (outcome, n, w)"
        by (cases "checkDoc probe (attempts + 1) (waited + initRetryDelay)") auto
      from ih r have a: "attempts + 1 < n" and b: "n \<le> maxInitAttempts"
        and c: "w = waited + initRetryDelay + (n - 1 - (attempts + 1)) * initRetryDelay"
        and d: "\<forall>i. attempts + 1 < i \<and> i < n \<longrightarrow> usable_doc (probe i) = None"
        and e: "case outcome of
                Fulfilled d \<Rightarrow> usable_doc (probe n) = Some d
              | Rejected e \<Rightarrow> n = maxInitAttempts \<and> usable_doc (probe n) = None
                  \<and> e = Error ''Failed to initialize editor after max attempts''"
        by simp_all
      have d': "\<forall>i. attempts < i \<and> i < n \<longrightarrow> usable_doc (probe i) = None"
      proof (intro allI impI)
        fix i assume "attempts < i \<and> i < n"
        then have "i = attempts + 1 \<or> (attempts + 1 < i \<and> i < n)" by auto
        with None d show "usable_doc (probe i) = None" by auto
      qed
      have "n - 1 - attempts = Suc (n - 1 - (attempts + 1))" using a by simp
      then have c': "w = waited + (n - 1 - attempts) * initRetryDelay"
        using c by simp
      have eq: "checkDoc probe attempts waited = (outcome, n, w)"
        using None False r by (simp add: checkDoc.simps [of probe attempts waited])
      from a b c' d' e show ?thesis by (simp add: eq)
    qed
  qed
qed

lemma waitForIframeDoc_bounds:
  "case waitForIframeDoc probe of
     (outcome, n, w) \<Rightarrow>
       1 \<le> n \<and> n \<le> maxInitAttempts
       \<and> w = (n - 1) * initRetryDelay
       \<and> (\<forall>i. 1 \<le> i \<and> i < n \<longrightarrow> usable_doc (probe i) = None)
       \<and> (case outcome of
             Fulfilled d \<Rightarrow> usable_doc (probe n) = Some d
           | Rejected e \<Rightarrow> n = maxInitAttempts \<and> usable_doc (probe n) = None
               \<and> e = Error ''Failed to initialize editor after max attempts'')"
proof -
  have "0 < maxInitAttempts" by (simp add: maxInitAttempts_def)
  from checkDoc_bounds [where attempts = 0 and probe = probe and waited = 0, OF this] show ?thesis
    by (auto simp: waitForIframeDoc_def split: prod.splits)
qed



lemma sort_interval_found:
  "present (t + k) \<Longrightarrow> (\<forall>i < k. \<not> present (t + i)) \<Longrightarrow> sort_interval present t = Some (t + k)"
proof (induction k arbitrary: t)
  case 0
  then show ?case by (simp add: sort_interval.simps)
next
  case (Suc k)
  from Suc.prems(2) have "\<not> present t" by force
  moreover have "sort_interval present (Suc t) = Some (Suc t + k)"
  proof (rule Suc.IH)
    show "present (Suc t + k)" using Suc.prems(1) by simp
    show "\<forall>i < k. \<not> present (Suc t + i)"
    proof (intro allI impI)
      fix i assume "i < k"
      then have "Suc i < Suc k" by simp
      with Suc.prems(2) have "\<not> present (t + Suc i)" by blast
      then show "\<not> present (Suc t + i)" by simp
    qed
  qed
  ultimately show ?case by (simp add: sort_interval.simps [of present t])
qed

lemma sort_interval_SomeD:
  assumes "sort_interval present t = Some t'"
  shows "t \<le> t' \<and> present t' \<and> (\<forall>i. t \<le> i \<and> i < t' \<longrightarrow> \<not> present i)"
proof (rule sort_interval.raw_induct
    [where P = "\<lambda>pr a b. a \<le> b \<and> pr b \<and> (\<forall>i. a \<le> i \<and> i < b \<longrightarrow> \<not> pr i)", OF _ assms])
  fix f :: "(nat \<Rightarrow> bool) \<Rightarrow> nat \<Rightarrow> nat option" and pr a b
  assume ih: "\<And>pr a b. f pr a = Some b \<Longrightarrow>
      a \<le> b \<and> pr b \<and> (\<forall>i. a \<le> i \<and> i < b \<longrightarrow> \<not> pr i)"
    and eq: "(if pr a then Some a else f pr (Suc a)) = Some b"
  show "a \<le> b \<and> pr b \<and> (\<forall>i. a \<le> i \<and> i < b \<longrightarrow> \<not> pr i)"
  proof (cases "pr a")
    case True
    with eq show ?thesis by auto
  next
    case False
    with eq have "f pr (Suc a) = Some b" by simp
    from ih [OF this]
    have c: "Suc a \<le> b \<and> pr b \<and> (\<forall>i. Suc a \<le> i \<and> i < b \<longrightarrow> \<not> pr i)" .
    have "\<not> pr i" if "a \<le> i \<and> i < b" for i
    proof (cases "i = a")
      case True
      with False show ?thesis by simp
    next
      case False
      with that have "Suc a \<le> i \<and> i < b" by simp
      with c show ?thesis by blast
    qed
    with c show ?thesis by simp
  qed
qed

lemma sort_interval_Some_iff:
  "sort_interval present t = Some t' \<longleftrightarrow>
     t \<le> t' \<and> present t' \<and> (\<forall>i. t \<le> i \<and> i < t' \<longrightarrow> \<not> present i)"
proof
  assume "sort_interval present t = Some t'"
  then show "t \<le> t' \<and> present t' \<and> (\<forall>i. t \<le> i \<and> i < t' \<longrightarrow> \<not> present i)"
    by (rule sort_interval_SomeD)
next
  assume a: "t \<le> t' \<and> present t' \<and> (\<forall>i. t \<le> i \<and> i < t' \<longrightarrow> \<not> present i)"
  then have "present (t + (t' - t))" and "\<forall>i < t' - t. \<not> present (t + i)" by auto
  from sort_interval_found [OF this] a show "sort_interval present t = Some t'" by simp
qed

lemma sort_interval_None_iff:
  "sort_interval present t = None \<longleftrightarrow> (\<forall>i \<ge> t. \<not> present i)"
proof
  assume n: "sort_interval present t = None"
  show "\<forall>i \<ge> t. \<not> present i"
  proof (rule ccontr)
    assume "\<not> (\<forall>i \<ge> t. \<not> present i)"
    then have ex: "\<exists>i. t \<le> i \<and> present i" by blast
    define m where "m = (LEAST i. t \<le> i \<and> present i)"
    from ex have "t \<le> m \<and> present m" unfolding m_def by (rule LeastI_ex)
    moreover have "\<forall>i. t \<le> i \<and> i < m \<longrightarrow> \<not> present i"
      unfolding m_def by (auto dest: not_less_Least)
    ultimately have "sort_interval present t = Some m"
      by (simp add: sort_interval_Some_iff)
    with n show False by simp
  qed
next
  assume a: "\<forall>i \<ge> t. \<not> present i"
  show "sort_interval present t = None"
  proof (cases "sort_interval present t")
    case None
    then show ?thesis .
  next
    case (Some t')
    from sort_interval_SomeD [OF this] a show ?thesis by blast
  qed
qed

text \<open>
  Claim C7, amended. The wait for the composer's document ends after at most
  \<^verbatim>\<open>maxInitAttempts\<close> attempts: at the first attempt that finds a usable document, or
  with a rejection at attempt \<^verbatim>\<open>maxInitAttempts\<close>. The timer of the sort trigger is
  cleared at the first tick at which the oldest-first button is present, and at no other
  tick; when the button is present at no tick, the timer is never cleared.
\<close>

theorem polling_loops_cancel:
  "(case waitForIframeDoc probe of
      (outcome, n, w) \<Rightarrow>
        1 \<le> n \<and> n \<le> maxInitAttempts
        \<and> (\<forall>i. 1 \<le> i \<and> i < n \<longrightarrow> usable_doc (probe i) = None)
        \<and> (case outcome of
              Fulfilled d \<Rightarrow> usable_doc (probe n) = Some d
            | Rejected e \<Rightarrow> n = maxInitAttempts \<and> usable_doc (probe n) = None))
   \<and> (\<forall>t. sort_interval present 1 = Some t \<longleftrightarrow>
          1 \<le> t \<and> present t \<and> (\<forall>i. 1 \<le> i \<and> i < t \<longrightarrow> \<not> present i))
   \<and> (sort_interval present 1 = None \<longleftrightarrow> (\<forall>t \<ge> 1. \<not> present t))"
proof -
  have "case waitForIframeDoc probe of
      (outcome, n, w) \<Rightarrow>
        1 \<le> n \<and> n \<le> maxInitAttempts
        \<and> (\<forall>i. 1 \<le> i \<and> i < n \<longrightarrow> usable_doc (probe i) = None)
        \<and> (case outcome of
              Fulfilled d \<Rightarrow> usable_doc (probe n) = Some d
            | Rejected e \<Rightarrow> n = maxInitAttempts \<and> usable_doc (probe n) = None)"
    using waitForIframeDoc_bounds [of probe]
    by (auto split: prod.splits settled.splits)
  then show ?thesis
    using sort_interval_Some_iff [of present 1] sort_interval_None_iff [of present 1]
    by blast
qed

theorem polling_loops_cancel_witness:
  "waitForIframeDoc ready_at_third = (Fulfilled 4, 3, 100)
   \<and> fst (snd (waitForIframeDoc never_ready)) = 50
   \<and> sort_interval (\<lambda>t. 4 \<le> t) 1 = Some 4"
proof -
  have 1: "waitForIframeDoc ready_at_third = (Fulfilled 4, 3, 100)"
    by code_simp
  have 2: "fst (snd (waitForIframeDoc never_ready)) = 50"
    by code_simp
  from polling_loops_cancel [of ready_at_third "\<lambda>t. 4 \<le> t"]
  have "sort_interval (\<lambda>t. 4 \<le> t) 1 = Some 4 \<longleftrightarrow>
          (1::nat) \<le> 4 \<and> (4::nat) \<le> 4 \<and> (\<forall>i::nat. 1 \<le> i \<and> i < 4 \<longrightarrow> \<not> 4 \<le> i)"
    by blast
  then have 3: "sort_interval (\<lambda>t. 4 \<le> t) 1 = Some 4" by simp
  from 1 2 3 show ?thesis by blast
qed

text \<open>
  Claim C7 as stated fails for the timer of the sort trigger: when the oldest-first
  button never appears, no tick clears the interval. There is no attempt count that
  ends it.
\<close>

theorem sort_interval_never_cancels_counterexample:
  "sort_interval (\<lambda>t. False) 1 = None"
  by (simp add: sort_interval_None_iff)

lemma parse_signatureBlock:
  "parse_selector signatureBlock = Some (ClassSelector ''protonmail_signature_block'')"
  by (simp add: parse_selector_def signatureBlock_def ident_char_def)

lemma parse_composer:
  "parse_selector composer = Some (TypeAttrSelector ''iframe'' ''title'' ''Email composer'')"
  by code_simp

lemma for_each_remove_if_signed:
  "\<exists>h' cs. for_each remove_if_signed ns (h, calls) = (Inr (), (h', cs))"
proof (induction ns arbitrary: h calls)
  case Nil
  then show ?case by simp
next
  case (Cons x xs)
  from remove_if_signed_calls [of h calls x] obtain h1 c1 where
    "remove_if_signed (h, calls) x = (Inr (), (h1, calls @ c1))" by blast
  with Cons.IH [of h1 "calls @ c1"] show ?case by simp
qed

text \<open>Removing and inserting nodes keeps every node's kind, name, classes and attributes.\<close>

lemma keeps_nodes_refl: "keeps_nodes h h"
  by (simp add: keeps_nodes_def)

lemma keeps_nodes_trans: "keeps_nodes a b \<Longrightarrow> keeps_nodes b c \<Longrightarrow> keeps_nodes a c"
  by (simp add: keeps_nodes_def)

lemma keeps_nodes_length: "keeps_nodes h h' \<Longrightarrow> r < length h \<Longrightarrow> r < length h'"
  by (simp add: keeps_nodes_def)

lemma keeps_nodes_append: "keeps_nodes h (h @ xs)"
  by (simp add: keeps_nodes_def nth_append)

lemma keeps_nodes_update:
  assumes "i < length h \<longrightarrow>
      nodeType n = nodeType (h ! i) \<and> localName n = localName (h ! i)
      \<and> classList n = classList (h ! i) \<and> attributes n = attributes (h ! i)"
  shows "keeps_nodes h (h[i := n])"
proof -
  have "nodeType (h[i := n] ! r) = nodeType (h ! r) \<and> localName (h[i := n] ! r) = localName (h ! r)
        \<and> classList (h[i := n] ! r) = classList (h ! r) \<and> attributes (h[i := n] ! r) = attributes (h ! r)"
    if "r < length h" for r
    using assms that by (cases "r = i") simp_all
  then show ?thesis by (simp add: keeps_nodes_def)
qed

lemma keeps_nodes_relink:
  "keeps_nodes h ((h[p := (h ! p)\<lparr>childNodes := cs\<rparr>])[r := (h ! r)\<lparr>parentNode := q\<rparr>])"
proof -
  let ?h1 = "h[p := (h ! p)\<lparr>childNodes := cs\<rparr>]"
  have 1: "keeps_nodes h ?h1" by (rule keeps_nodes_update) simp
  have 2: "keeps_nodes ?h1 (?h1[r := (h ! r)\<lparr>parentNode := q\<rparr>])"
    by (rule keeps_nodes_update) (cases "r = p", simp_all)
  from 1 2 show ?thesis by (rule keeps_nodes_trans)
qed

lemma keeps_nodes_remove_node: "keeps_nodes h (remove_node h r)"
  by (simp add: remove_node_def keeps_nodes_refl keeps_nodes_relink split: option.splits)

lemma keeps_nodes_insertBefore:
  assumes "insertBefore h parent new child = Inr h'"
  shows "keeps_nodes h h'"
proof -
  let ?h1 = "remove_node h new"
  from assms have h': "h' = (?h1[parent := (?h1 ! parent)\<lparr>childNodes :=
                      insert_before new child (childNodes (?h1 ! parent))\<rparr>])
                   [new := (?h1 ! new)\<lparr>parentNode := Some parent\<rparr>]"
    by (simp add: insertBefore_def Let_def del: inclusive_ancestors.simps split: if_splits)
  have "keeps_nodes ?h1 h'"
    unfolding h' by (rule keeps_nodes_relink)
  with keeps_nodes_remove_node [of h new] show ?thesis by (rule keeps_nodes_trans)
qed

lemma keeps_nodes_insert_line_break: "keeps_nodes h (snd (insert_line_break h node))"
proof (cases "ownerDocument (h ! node)")
  case None
  then show ?thesis by (simp add: insert_line_break_def keeps_nodes_refl)
next
  case (Some doc)
  let ?h1 = "h @ [new_element doc ''br'']"
  show ?thesis
  proof (cases "parentNode (?h1 ! node)")
    case None
    with Some show ?thesis
      by (simp add: insert_line_break_def createElement_def keeps_nodes_append)
  next
    case (Some parent)
    show ?thesis
    proof (cases "insertBefore ?h1 parent (length h) node")
      case (Inl e)
      with Some \<open>ownerDocument (h ! node) = Some doc\<close> show ?thesis
        by (simp add: insert_line_break_def createElement_def keeps_nodes_append)
    next
      case (Inr h2)
      from keeps_nodes_trans [OF keeps_nodes_append keeps_nodes_insertBefore [OF Inr]]
      have "keeps_nodes h h2" .
      with Inr Some \<open>ownerDocument (h ! node) = Some doc\<close> show ?thesis
        by (simp add: insert_line_break_def createElement_def)
    qed
  qed
qed

lemma keeps_nodes_opt_remove: "keeps_nodes h (opt_remove h x)"
  by (cases x) (simp_all add: keeps_nodes_refl keeps_nodes_remove_node)

lemma keeps_nodes_remove_previous: "keeps_nodes h (remove_previous h e prev)"
proof (cases e)
  case False
  then show ?thesis by (simp add: remove_previous_def keeps_nodes_opt_remove)
next
  case True
  from keeps_nodes_trans [OF keeps_nodes_opt_remove keeps_nodes_opt_remove]
  show ?thesis using True by (simp add: remove_previous_def Let_def)
qed

lemma keeps_nodes_remove_proton_signature:
  "keeps_nodes h (snd (remove_proton_signature h node))"
  by (simp add: remove_proton_signature_def keeps_nodes_refl keeps_nodes_remove_node
        split: sum.splits option.splits)

lemma keeps_nodes_removeSignature_try: "keeps_nodes h (snd (removeSignature_try h node))"
proof (cases "node < length h")
  case False
  then show ?thesis by (simp add: removeSignature_try_def keeps_nodes_refl)
next
  case True
  obtain r h1 where ilb: "insert_line_break h node = (r, h1)"
    by (cases "insert_line_break h node") auto
  from keeps_nodes_insert_line_break [of h node] ilb have k1: "keeps_nodes h h1" by simp
  show ?thesis
  proof (cases r)
    case (Inl e)
    with True ilb k1 show ?thesis by (simp add: removeSignature_try_def Let_def)
  next
    case (Inr u)
    let ?h3 = "remove_previous h1 (isEmptySignature h node) (previousElementSibling h node)"
    from keeps_nodes_trans [OF keeps_nodes_trans [OF k1 keeps_nodes_remove_previous]
        keeps_nodes_remove_proton_signature]
    have "keeps_nodes h (snd (remove_proton_signature ?h3 node))" .
    with True ilb Inr show ?thesis by (simp add: removeSignature_try_def Let_def)
  qed
qed

lemma keeps_nodes_removeSignature: "keeps_nodes h (snd (removeSignature h node))"
  using keeps_nodes_removeSignature_try [of h node]
  by (auto simp add: removeSignature_def split: prod.splits sum.splits)

lemma keeps_nodes_remove_if_signed:
  "keeps_nodes h (fst (snd (remove_if_signed (h, calls) node)))"
  using keeps_nodes_removeSignature [of h node]
  by (auto simp add: remove_if_signed_def keeps_nodes_refl split: prod.splits sum.splits option.splits)

lemma for_each_remove_if_signed_keeps:
  "keeps_nodes h (fst (snd (for_each remove_if_signed ns (h, calls))))"
proof (induction ns arbitrary: h calls)
  case Nil
  then show ?case by (simp add: keeps_nodes_refl)
next
  case (Cons x xs)
  from remove_if_signed_calls [of h calls x] obtain h1 c1 where
    r: "remove_if_signed (h, calls) x = (Inr (), (h1, calls @ c1))" by blast
  from keeps_nodes_remove_if_signed [of h calls x] r have "keeps_nodes h h1" by simp
  from keeps_nodes_trans [OF this Cons.IH [of h1 "calls @ c1"]] r show ?case by simp
qed


text \<open>What the composer observer's parts do to the page.\<close>

lemma page_grows_refl: "page_grows pg pg"
  by (simp add: page_grows_def keeps_nodes_refl)

lemma page_grows_trans: "page_grows a b \<Longrightarrow> page_grows b c \<Longrightarrow> page_grows a c"
  by (auto simp: page_grows_def intro: keeps_nodes_trans)

lemma page_grows_length: "page_grows pg pg' \<Longrightarrow> r < length (store pg) \<Longrightarrow> r < length (store pg')"
  by (auto simp: page_grows_def dest: keeps_nodes_length)

lemma page_grows_observed:
  "page_grows pg pg' \<Longrightarrow> d \<in> set (observed_docs pg) \<Longrightarrow> d \<in> set (observed_docs pg')"
  by (auto simp: page_grows_def)

lemma setupObserver_effect:
  "\<exists>r pg'. setupObserver pg d = (r, pg') \<and> page_grows pg pg'
     \<and> (d < length (store pg) \<longrightarrow> r = Inr () \<and> d \<in> set (observed_docs pg'))"
proof (cases "d < length (store pg)")
  case False
  then show ?thesis by (simp add: setupObserver_def page_grows_refl)
next
  case True
  let ?pg1 = "pg\<lparr>observed_docs := observed_docs pg @ [d]\<rparr>"
  obtain ns where q: "querySelectorAll (store pg) d signatureBlock = Inr ns"
    by (simp add: querySelectorAll_def parse_signatureBlock)
  from for_each_remove_if_signed [of ns "store pg" "[]"] obtain h' cs where
    f: "for_each remove_if_signed ns (store pg, []) = (Inr (), (h', cs))" by blast
  from for_each_remove_if_signed_keeps [of "store pg" ns "[]"] f
  have "keeps_nodes (store pg) h'" by simp
  with True q f show ?thesis by (auto simp add: setupObserver_def page_grows_def)
qed

lemma init_composer_effect:
  "\<exists>pg'. init_composer env pg iframe = (Fulfilled (), pg') \<and> page_grows pg pg'
     \<and> (\<forall>e. fst (waitForIframeDoc (env iframe)) = Rejected e \<longrightarrow> pg' = pg)
     \<and> (\<forall>d. fst (waitForIframeDoc (env iframe)) = Fulfilled d \<and> d < length (store pg)
            \<longrightarrow> d \<in> set (observed_docs pg'))"
proof (cases "fst (waitForIframeDoc (env iframe))")
  case (Rejected e)
  then show ?thesis
    by (simp add: init_composer_def then_do_def catch_do_def page_grows_refl)
next
  case (Fulfilled d)
  from setupObserver_effect [of pg d] obtain r pg' where
    s: "setupObserver pg d = (r, pg')"
    and g: "page_grows pg pg'"
    and ok: "d < length (store pg) \<longrightarrow> r = Inr () \<and> d \<in> set (observed_docs pg')"
    by blast
  have "init_composer env pg iframe = (Fulfilled (), pg')"
    using Fulfilled s by (cases r) (simp_all add: init_composer_def then_do_def catch_do_def)
  with Fulfilled g ok show ?thesis by simp
qed

lemma for_each_init_composer:
  "\<exists>pg'. for_each (\<lambda>s iframe. (Inr (), snd (init_composer env s iframe))) xs pg = (Inr (), pg')
     \<and> page_grows pg pg'
     \<and> (\<forall>x d. x \<in> set xs \<and> fst (waitForIframeDoc (env x)) = Fulfilled d
            \<and> d < length (store pg) \<longrightarrow> d \<in> set (observed_docs pg'))"
proof (induction xs arbitrary: pg)
  case Nil
  then show ?case by (simp add: page_grows_refl)
next
  case (Cons x xs)
  from init_composer_effect [of env pg x] obtain pg1 where
    1: "init_composer env pg x = (Fulfilled (), pg1)"
    and 2: "page_grows pg pg1"
    and 3: "\<forall>d. fst (waitForIframeDoc (env x)) = Fulfilled d \<and> d < length (store pg)
            \<longrightarrow> d \<in> set (observed_docs pg1)" by blast
  from Cons.IH [of pg1] obtain pg2 where
    4: "for_each (\<lambda>s iframe. (Inr (), snd (init_composer env s iframe))) xs pg1 = (Inr (), pg2)"
    and 5: "page_grows pg1 pg2"
    and 6: "\<forall>y d. y \<in> set xs \<and> fst (waitForIframeDoc (env y)) = Fulfilled d
            \<and> d < length (store pg1) \<longrightarrow> d \<in> set (observed_docs pg2)" by blast
  have r: "for_each (\<lambda>s iframe. (Inr (), snd (init_composer env s iframe))) (x # xs) pg
      = (Inr (), pg2)"
    using 1 4 by simp
  have "d \<in> set (observed_docs pg2)"
    if y: "y \<in> set (x # xs)" and w: "fst (waitForIframeDoc (env y)) = Fulfilled d"
      and d: "d < length (store pg)" for y d
  proof (cases "y \<in> set xs")
    case True
    with 6 w page_grows_length [OF 2 d] show ?thesis by blast
  next
    case False
    with y have "y = x" by simp
    with 3 w d have "d \<in> set (observed_docs pg1)" by blast
    with 5 show ?thesis by (rule page_grows_observed)
  qed
  with r page_grows_trans [OF 2 5] show ?case by blast
qed

lemma not_node_type_guard: "\<not> node_type_guard h node"
  by (simp add: node_type_guard_def strict_equals_def js_not_def)

lemma optional_matches:
  "\<exists>m. optional_call (matches_method h node) composer = Inr m
     \<and> (m = Some True \<longleftrightarrow> matches h node composer = Inr True \<and> node < length h)"
  by (auto simp: optional_call_def matches_method_def matches_def parse_composer
        has_matches_def is_element_def)

lemma optional_querySelectorAll:
  "\<exists>found. optional_call (querySelectorAll_method h node) composer = Inr found
     \<and> (node < length h \<and> has_querySelector (nodeType (h ! node)) \<longrightarrow>
          (\<exists>xs. querySelectorAll h node composer = Inr xs \<and> found = Some xs))"
  by (simp add: optional_call_def querySelectorAll_method_def querySelectorAll_def parse_composer)

lemma composer_added_node_effect:
  "\<exists>pg'. composer_added_node env pg node = (Inr (), pg') \<and> page_grows pg pg'
     \<and> (\<forall>d. matches (store pg) node composer = Inr True \<and> node < length (store pg)
            \<and> fst (waitForIframeDoc (env node)) = Fulfilled d \<and> d < length (store pg)
            \<longrightarrow> d \<in> set (observed_docs pg'))
     \<and> (\<forall>xs x d. matches (store pg) node composer \<noteq> Inr True \<and> node < length (store pg)
            \<and> has_querySelector (nodeType (store pg ! node))
            \<and> querySelectorAll (store pg) node composer = Inr xs \<and> x \<in> set xs
            \<and> fst (waitForIframeDoc (env x)) = Fulfilled d \<and> d < length (store pg)
            \<longrightarrow> d \<in> set (observed_docs pg'))"
proof -
  from optional_matches [of "store pg" node] obtain m where
    m: "optional_call (matches_method (store pg) node) composer = Inr m"
    and mt: "m = Some True \<longleftrightarrow> matches (store pg) node composer = Inr True \<and> node < length (store pg)"
    by blast
  define pg1 where "pg1 = (if m = Some True then snd (init_composer env pg node) else pg)"
  from init_composer_effect [of env pg node] obtain pi where
    i1: "init_composer env pg node = (Fulfilled (), pi)" and i2: "page_grows pg pi"
    and i3: "\<forall>d. fst (waitForIframeDoc (env node)) = Fulfilled d \<and> d < length (store pg)
            \<longrightarrow> d \<in> set (observed_docs pi)" by blast
  have g1: "page_grows pg pg1"
    using i1 i2 by (simp add: pg1_def page_grows_refl)
  from optional_querySelectorAll [of "store pg1" node] obtain found where
    f: "optional_call (querySelectorAll_method (store pg1) node) composer = Inr found"
    and fx: "node < length (store pg1) \<and> has_querySelector (nodeType (store pg1 ! node)) \<longrightarrow>
          (\<exists>xs. querySelectorAll (store pg1) node composer = Inr xs \<and> found = Some xs)"
    by blast
  have "\<exists>pg'. composer_added_node env pg node = (Inr (), pg') \<and> page_grows pg1 pg'
     \<and> (\<forall>xs x d. found = Some xs \<and> x \<in> set xs
            \<and> fst (waitForIframeDoc (env x)) = Fulfilled d \<and> d < length (store pg1)
            \<longrightarrow> d \<in> set (observed_docs pg'))"
  proof (cases found)
    case None
    with m f show ?thesis
      by (simp add: composer_added_node_def not_node_type_guard pg1_def page_grows_refl)
  next
    case (Some xs)
    from for_each_init_composer [of env xs pg1] obtain pg2 where
      "for_each (\<lambda>s iframe. (Inr (), snd (init_composer env s iframe))) xs pg1 = (Inr (), pg2)"
      and "page_grows pg1 pg2"
      and "\<forall>x d. x \<in> set xs \<and> fst (waitForIframeDoc (env x)) = Fulfilled d
            \<and> d < length (store pg1) \<longrightarrow> d \<in> set (observed_docs pg2)" by blast
    with m f Some show ?thesis
      by (simp add: composer_added_node_def not_node_type_guard pg1_def)
  qed
  then obtain pg' where
    r: "composer_added_node env pg node = (Inr (), pg')"
    and g2: "page_grows pg1 pg'"
    and nested: "\<forall>xs x d. found = Some xs \<and> x \<in> set xs
            \<and> fst (waitForIframeDoc (env x)) = Fulfilled d \<and> d < length (store pg1)
            \<longrightarrow> d \<in> set (observed_docs pg')" by blast
  have a: "d \<in> set (observed_docs pg')"
    if "matches (store pg) node composer = Inr True \<and> node < length (store pg)
            \<and> fst (waitForIframeDoc (env node)) = Fulfilled d \<and> d < length (store pg)" for d
  proof -
    from that mt i1 have "pg1 = pi" by (simp add: pg1_def)
    with i3 that have "d \<in> set (observed_docs pg1)" by blast
    with g2 show ?thesis by (rule page_grows_observed)
  qed
  have b: "d \<in> set (observed_docs pg')"
    if "matches (store pg) node composer \<noteq> Inr True \<and> node < length (store pg)
            \<and> has_querySelector (nodeType (store pg ! node))
            \<and> querySelectorAll (store pg) node composer = Inr xs \<and> x \<in> set xs
            \<and> fst (waitForIframeDoc (env x)) = Fulfilled d \<and> d < length (store pg)" for xs x d
  proof -
    from that mt have "pg1 = pg" by (simp add: pg1_def)
    with fx that have "found = Some xs" by auto
    with nested that \<open>pg1 = pg\<close> show ?thesis by blast
  qed
  from r page_grows_trans [OF g1 g2] a b show ?thesis by blast
qed






text \<open>
  Claim C9. The guard of line 193 is false for every node, since the negation of any
  value is a boolean and no boolean is strictly equal to the number 1; so the early
  return is never taken. The callback completes without an exception for every added
  node; for a node that is no element the \<^verbatim>\<open>matches\<close> method is missing and the
  optional call gives undefined, and for a text, comment or doctype node
  \<^verbatim>\<open>querySelectorAll\<close> is missing as well and the page is left as it was.
\<close>

theorem node_type_guard_never_skips:
  "\<not> strict_equals (js_not v) (JNumber (nodeType_code ELEMENT_NODE))
   \<and> \<not> node_type_guard (store pg) node
   \<and> fst (composer_added_node env pg node) = Inr ()
   \<and> (\<not> is_element (store pg) node \<longrightarrow>
         optional_call (matches_method (store pg) node) composer = Inr None)
   \<and> (nodeType (store pg ! node) \<in> {TEXT_NODE, COMMENT_NODE, DOCUMENT_TYPE_NODE} \<longrightarrow>
         composer_added_node env pg node = (Inr (), pg))"
proof -
  have 1: "\<not> strict_equals (js_not v) (JNumber (nodeType_code ELEMENT_NODE))"
    by (simp add: strict_equals_def js_not_def)
  have 2: "\<not> node_type_guard (store pg) node" by (rule not_node_type_guard)
  from composer_added_node_effect [of env pg node]
  have 3: "fst (composer_added_node env pg node) = Inr ()" by auto
  have 4: "optional_call (matches_method (store pg) node) composer = Inr None"
    if "\<not> is_element (store pg) node"
    using that by (auto simp add: optional_call_def matches_method_def has_matches_def is_element_def)
  have 5: "composer_added_node env pg node = (Inr (), pg)"
    if "nodeType (store pg ! node) \<in> {TEXT_NODE, COMMENT_NODE, DOCUMENT_TYPE_NODE}"
    using that
    by (auto simp add: composer_added_node_def not_node_type_guard optional_call_def
          matches_method_def querySelectorAll_method_def has_matches_def has_querySelector_def)
  from 1 2 3 4 5 show ?thesis by blast
qed

theorem node_type_guard_never_skips_witness:
  "\<not> node_type_guard (store example_page) 5
   \<and> nodeType (store example_page ! 5) = TEXT_NODE
   \<and> composer_added_node example_env example_page 5 = (Inr (), example_page)"
proof -
  have t: "nodeType (store example_page ! 5) = TEXT_NODE" by code_simp
  with node_type_guard_never_skips [of "JNumber 3" example_page 5 example_env]
  show ?thesis by simp
qed

end
